theory Spec2Isabelle
  imports Complex_Main "HOL-Library.Word" "HOL-Library.Signed_Division"
begin

section \<open>Row encoding\<close>

text \<open>
  The constraint pool of \<^verbatim>\<open>constrnt.c\<close> stores every inequality as an array of
  \<^verbatim>\<open>struct rcoef { int var; int val; }\<close>: the left-hand side entries carry a
  variable number \<open>var \<ge> RC_VAR_BASE\<close> and its integer coefficient, and the row ends with one
  entry whose \<open>var\<close> is the relational operator and whose \<open>val\<close> is the right-hand side.
  A row pointer is modelled by the list of entries that starts at it; reading past the end of
  the list is the error \<open>OutOfBounds\<close>, and every \<^verbatim>\<open>FATAL_ERROR\<close> of the source is
  the error \<open>Fatal\<close>.  C \<^verbatim>\<open>int\<close> values are mathematical integers here (counts, indices
  and coefficients stay far from the 32-bit range); only the hash function, which relies on
  the 32-bit representation, is modelled on machine words.  C \<^verbatim>\<open>double\<close> values are
  modelled as real numbers, so rounding is outside the model.
\<close>

record rcoef =
  var :: int
  val :: int

datatype error = Fatal | OutOfBounds

text \<open>
  Modelled from the spec: the macros \<^verbatim>\<open>RC_VAR_BASE\<close>, \<^verbatim>\<open>RC_OP_LE\<close>,
  \<^verbatim>\<open>RC_OP_EQ\<close>, \<^verbatim>\<open>RC_OP_GE\<close> and \<^verbatim>\<open>FUZZ\<close> come from headers that are
  not part of the sources at hand.  The three operator codes are distinct and lie below
  \<^verbatim>\<open>RC_VAR_BASE\<close> (the loops stop at \<^verbatim>\<open>var < RC_VAR_BASE\<close> and then switch on the
  operator); \<^verbatim>\<open>FUZZ\<close> is the fixed positive tolerance.
\<close>

definition RC_VAR_BASE :: int where "RC_VAR_BASE = 0"
definition RC_OP_LE :: int where "RC_OP_LE = -1"
definition RC_OP_EQ :: int where "RC_OP_EQ = -2"
definition RC_OP_GE :: int where "RC_OP_GE = -3"
definition FUZZ :: real where "FUZZ = 1 / 1000000"

subsection \<open>Reduction to lowest terms\<close>

text \<open>Euclid's loop of \<^verbatim>\<open>reduce_constraint\<close>:
  \<^verbatim>\<open>while (j > 0) { rem = k % j; k = j; j = rem; }\<close>, whose result is \<open>k\<close>.\<close>

function euclid :: "int \<Rightarrow> int \<Rightarrow> int" where
  "euclid k j = (if j > 0 then euclid j (k smod j) else k)"
  by pat_completeness auto
termination
proof (relation "measure (\<lambda>(k, j). nat j)")
  show "wf (measure (\<lambda>(k, j). nat j))" by simp
next
  fix k j :: int
  assume "0 < j"
  have "\<bar>k smod j\<bar> < \<bar>j\<bar>"
    using \<open>0 < j\<close> by (simp add: smod_int_alt_def abs_mult sgn_if abs_mod_less)
  then show "((j, k smod j), (k, j)) \<in> measure (\<lambda>(k, j). nat j)"
    using \<open>0 < j\<close> by simp
qed

declare euclid.simps [simp del]

text \<open>The first loop: the running common factor \<open>cf\<close> is combined with each further entry,
  the operator entry included; the loop returns as soon as the factor is 1.\<close>

fun reduce_scan :: "int \<Rightarrow> rcoef list \<Rightarrow> error + int" where
  "reduce_scan cf [] = Inl OutOfBounds"
| "reduce_scan cf (p # ps) =
     (if val p = 0 then Inl Fatal
      else let cf' = euclid \<bar>val p\<bar> cf in
        if cf' = 1 then Inr 1
        else if var p < RC_VAR_BASE then Inr cf'
        else reduce_scan cf' ps)"

text \<open>The second loop divides every entry up to and including the operator entry.\<close>

fun divide_row :: "int \<Rightarrow> rcoef list \<Rightarrow> error + rcoef list" where
  "divide_row cf [] = Inl OutOfBounds"
| "divide_row cf (p # ps) =
     (if val p smod cf \<noteq> 0 then Inl Fatal
      else let p' = p\<lparr>val := val p sdiv cf\<rparr> in
        if var p < RC_VAR_BASE then Inr (p' # ps)
        else (case divide_row cf ps of Inl e \<Rightarrow> Inl e | Inr ps' \<Rightarrow> Inr (p' # ps')))"

definition reduce_constraint :: "rcoef list \<Rightarrow> error + rcoef list" where
  "reduce_constraint rp =
     (case rp of
        [] \<Rightarrow> Inl OutOfBounds
      | p0 # ps \<Rightarrow>
          if val p0 = 0 then Inl Fatal
          else if \<bar>val p0\<bar> = 1 then Inr rp
          else (case reduce_scan \<bar>val p0\<bar> ps of
                  Inl e \<Rightarrow> Inl e
                | Inr cf \<Rightarrow> if cf = 1 then Inr rp else divide_row cf rp))"

subsection \<open>Violation test and slack\<close>




text \<open>The shape of a row: variable entries closed by one operator entry.  A stored row has
  a non-empty left-hand side.\<close>

definition row_shape :: "rcoef list \<Rightarrow> bool" where
  "row_shape r \<longleftrightarrow>
     r \<noteq> [] \<and> list_all (\<lambda>p. RC_VAR_BASE \<le> var p) (butlast r) \<and> var (last r) < RC_VAR_BASE"


definition known_op :: "rcoef list \<Rightarrow> bool" where
  "known_op r \<longleftrightarrow> var (last r) = RC_OP_LE \<or> var (last r) = RC_OP_EQ \<or> var (last r) = RC_OP_GE"





text \<open>Rows and solution vectors used as concrete inputs.\<close>

definition row_6_9_15 :: "rcoef list" where
  "row_6_9_15 = [\<lparr>var = RC_VAR_BASE, val = 6\<rparr>, \<lparr>var = RC_VAR_BASE + 1, val = 9\<rparr>,
     \<lparr>var = RC_VAR_BASE + 2, val = 15\<rparr>, \<lparr>var = RC_OP_LE, val = 30\<rparr>]"

definition row_2_3_5 :: "rcoef list" where
  "row_2_3_5 = [\<lparr>var = RC_VAR_BASE, val = 2\<rparr>, \<lparr>var = RC_VAR_BASE + 1, val = 3\<rparr>,
     \<lparr>var = RC_VAR_BASE + 2, val = 5\<rparr>, \<lparr>var = RC_OP_LE, val = 10\<rparr>]"

definition row_x1_x2_le_1 :: "rcoef list" where
  "row_x1_x2_le_1 = [\<lparr>var = RC_VAR_BASE, val = 1\<rparr>, \<lparr>var = RC_VAR_BASE + 1, val = 1\<rparr>,
     \<lparr>var = RC_OP_LE, val = 1\<rparr>]"


section \<open>The constraint pool, the LP engine and the search node\<close>

text \<open>
  A row header (\<^verbatim>\<open>struct rcon\<close>).  The coefficient block a header points to is kept in
  the header by value: rows are immutable once stored, so the block-based coefficient arena
  (allocation, compaction, release of blocks) is storage management outside this model.
  \<open>lprow\<close> is \<open>-1\<close> for a row that is not in the LP, \<open>-2\<close> for a pending row, and the LP row
  number of a loaded row.
\<close>

record rcon =
  len :: int
  coefs :: "rcoef list"
  next_r :: int
  lprow :: int
  biter :: int
  hval :: int
  flags :: int
  uid :: int
  refc :: int

text \<open>
  The pool (\<^verbatim>\<open>struct cpool\<close>).  \<open>rows\<close> holds the \<open>nrows\<close> headers in use; \<open>maxrows\<close> is
  the allocated capacity, which is also the length of the array \<open>lprows\<close>.  \<open>lprows\<close> lists the
  pool numbers of the \<open>nlprows\<close> loaded rows, in LP order, followed by the \<open>npend\<close> pending rows.
  \<open>uid_p\<close> is the field \<^verbatim>\<open>pool -> uid\<close>, the next unique row identifier.
\<close>

record cpool =
  uid_p :: int
  rows :: "rcon list"
  maxrows :: int
  lprows :: "int list"
  nlprows :: int
  npend :: int
  hash :: "int list"
  iter_p :: int
  initrows :: int
  num_nz :: int
  hwmrow :: int
  hwmnz :: int

definition nrows :: "cpool \<Rightarrow> int" where
  "nrows pool = int (length (rows pool))"

text \<open>
  The LP engine is external; it is modelled at its interface, in the CPLEX configuration
  the repository is run with (the lp\_solve branches keep the same pool bookkeeping).  The
  engine holds its constraint rows in order, each with the content that was handed to it,
  its number of columns, and a basis.  Its calls are taken to succeed.
\<close>

record lp_t =
  lp_rows :: "rcoef list list"
  lp_ncols :: int
  lp_cstat :: "int list"
  lp_rstat :: "int list"

text \<open>The part of a search node (\<^verbatim>\<open>struct bbnode\<close>) the pool code reads and writes.  A
  pointer that may be \<^verbatim>\<open>NULL\<close> is an option.\<close>

record bbnode =
  node_z :: real
  delrow_z :: real
  cpiter :: int
  node_x :: "real list"
  n_uids :: int
  bc_uids :: "int list option"
  bc_row :: "int list option"
  rstat :: "int list option"
  cstat :: "int list option"

record bbinfo =
  cpool :: cpool
  lp :: lp_t
  node :: bbnode
  slack :: "real list"

text \<open>
  Modelled from the spec: the macros \<^verbatim>\<open>CPOOL_HASH_SIZE\<close> and \<^verbatim>\<open>RCON_FLAG_DISCARD\<close>
  (the "always discard" flag bit) come from a header that is not part of the sources at hand.
\<close>

definition CPOOL_HASH_SIZE :: int where "CPOOL_HASH_SIZE = 1009"
definition RCON_FLAG_DISCARD :: int where "RCON_FLAG_DISCARD = 1"

subsection \<open>Checked array access and sequencing of fallible steps\<close>

definition nth_e :: "'a list \<Rightarrow> int \<Rightarrow> error + 'a" where
  "nth_e xs i = (if 0 \<le> i \<and> i < int (length xs) then Inr (xs ! nat i) else Inl OutOfBounds)"

definition upd_e :: "'a list \<Rightarrow> int \<Rightarrow> 'a \<Rightarrow> error + 'a list" where
  "upd_e xs i v = (if 0 \<le> i \<and> i < int (length xs) then Inr (xs[nat i := v]) else Inl OutOfBounds)"

definition ebind :: "error + 'a \<Rightarrow> ('a \<Rightarrow> error + 'b) \<Rightarrow> error + 'b" where
  "ebind m f = (case m of Inl e \<Rightarrow> Inl e | Inr v \<Rightarrow> f v)"

definition is_ok :: "error + 'a \<Rightarrow> bool" where
  "is_ok m = (case m of Inl _ \<Rightarrow> False | Inr _ \<Rightarrow> True)"

text \<open>A counted \<^verbatim>\<open>for\<close> loop whose body may abort: the body is run on each index in
  turn, threading the state.\<close>

fun efold :: "('i \<Rightarrow> 's \<Rightarrow> error + 's) \<Rightarrow> 'i list \<Rightarrow> 's \<Rightarrow> error + 's" where
  "efold f [] s = Inr s"
| "efold f (i # is) s = (case f i s of Inl e \<Rightarrow> Inl e | Inr s' \<Rightarrow> efold f is s')"

subsection \<open>Marking a row pending\<close>

definition mark_row_pending_to_LP :: "cpool \<Rightarrow> int \<Rightarrow> error + cpool" where
  "mark_row_pending_to_LP pool row =
     (if row < 0 \<or> row \<ge> nrows pool then Inl Fatal
      else let rcp = rows pool ! nat row in
        if lprow rcp \<ge> 0 \<or> lprow rcp = -2 then Inr pool
        else if lprow rcp \<noteq> -1 then Inl Fatal
        else ebind (upd_e (lprows pool) (nlprows pool + npend pool) row) (\<lambda>lpr.
          Inr (pool\<lparr>rows := (rows pool)[nat row := rcp\<lparr>lprow := -2\<rparr>],
                    npend := npend pool + 1, lprows := lpr\<rparr>)))"

subsection \<open>Pushing the pending rows into the LP\<close>

text \<open>The first loop of \<^verbatim>\<open>_gst_add_pending_rows_to_LP\<close>: each pending row gets its LP row
  number; the state is the row headers and the running coefficient count.\<close>

definition assign_lprow :: "int list \<Rightarrow> int \<Rightarrow> rcon list \<times> int \<Rightarrow> error + rcon list \<times> int" where
  "assign_lprow lpr i st =
     (case st of (rws, ncoeff) \<Rightarrow>
        ebind (nth_e lpr i) (\<lambda>row.
        ebind (nth_e rws row) (\<lambda>rcp.
          if lprow rcp \<noteq> -2 then Inl Fatal
          else Inr (rws[nat row := rcp\<lparr>lprow := i\<rparr>], ncoeff + len rcp))))"

text \<open>The inner loop of the second pass: the entries of one row are handed over up to the
  operator entry; a column outside the LP or an unknown operator is fatal.\<close>

fun serialize_row :: "int \<Rightarrow> rcoef list \<Rightarrow> error + rcoef list" where
  "serialize_row ncols [] = Inl OutOfBounds"
| "serialize_row ncols (c # cs) =
     (if var c < RC_VAR_BASE then
        (if var c = RC_OP_LE \<or> var c = RC_OP_EQ \<or> var c = RC_OP_GE then Inr [c] else Inl Fatal)
      else if var c - RC_VAR_BASE \<ge> ncols then Inl Fatal
      else ebind (serialize_row ncols cs) (\<lambda>r. Inr (c # r)))"

definition build_lp_row :: "int \<Rightarrow> int list \<Rightarrow> rcon list \<Rightarrow> int \<Rightarrow> rcoef list list \<times> int
     \<Rightarrow> error + rcoef list list \<times> int" where
  "build_lp_row ncols lpr rws i st =
     (case st of (new, nzi) \<Rightarrow>
        ebind (nth_e lpr i) (\<lambda>row.
        ebind (nth_e rws row) (\<lambda>rcp.
        ebind (serialize_row ncols (coefs rcp)) (\<lambda>r.
          Inr (new @ [r], nzi + int (length r) - 1)))))"

definition lp_num_nz :: "lp_t \<Rightarrow> int" where
  "lp_num_nz l = (\<Sum>r\<leftarrow>lp_rows l. int (length r) - 1)"

definition add_pending_rows_to_LP :: "bbinfo \<Rightarrow> error + bbinfo" where
  "add_pending_rows_to_LP bbip =
     (let pool = cpool bbip; l = lp bbip in
      if int (length (lp_rows l)) \<noteq> nlprows pool then Inl Fatal
      else if npend pool < 0 then Inl Fatal
      else if npend pool = 0 then Inr bbip
      else let i1 = nlprows pool; i2 = i1 + npend pool in
        ebind (efold (assign_lprow (lprows pool)) [i1 .. i2 - 1] (rows pool, 0)) (\<lambda>(rws, ncoeff).
        ebind (efold (build_lp_row (lp_ncols l) (lprows pool) rws) [i1 .. i2 - 1] ([], 0)) (\<lambda>(new, nzi).
          if nzi \<noteq> ncoeff then Inl Fatal
          else Inr (bbip\<lparr>
            cpool := pool\<lparr>rows := rws, nlprows := i2, npend := 0,
                      hwmrow := (if i2 > hwmrow pool then i2 else hwmrow pool),
                      hwmnz := (if lp_num_nz l + ncoeff > hwmnz pool
                                 then lp_num_nz l + ncoeff else hwmnz pool)\<rparr>,
            lp := l\<lparr>lp_rows := lp_rows l @ new\<rparr>\<rparr>))))"

subsection \<open>Deleting slack rows from the LP\<close>

unbundle bit_operations_syntax

text \<open>The counting loop that precedes the main loop in the CPLEX branch; its results are
  not used afterwards, only its array reads can go wrong.\<close>

definition count_slack :: "cpool \<Rightarrow> real list \<Rightarrow> int \<Rightarrow> int \<times> int \<Rightarrow> error + int \<times> int" where
  "count_slack pool slk i st =
     (case st of (k, slack_nz) \<Rightarrow>
        ebind (nth_e slk i) (\<lambda>s.
          if s > FUZZ then
            ebind (nth_e (lprows pool) i) (\<lambda>j.
            ebind (nth_e (rows pool) j) (\<lambda>rcp. Inr (k + 1, slack_nz + len rcp)))
          else Inr (k, slack_nz)))"

text \<open>The main loop: LP row \<open>i\<close> is put on the delete list \<open>dlist\<close> when it is slack or
  flagged for discarding, and slides up to position \<open>j\<close> otherwise.\<close>

definition slack_step :: "real list \<Rightarrow> int \<Rightarrow> rcon list \<times> int list \<times> int \<times> int list
     \<Rightarrow> error + rcon list \<times> int list \<times> int \<times> int list" where
  "slack_step slk i st =
     (case st of (rws, lpr, j, dlist) \<Rightarrow>
        ebind (nth_e lpr i) (\<lambda>row.
        ebind (nth_e rws row) (\<lambda>rcp.
          if lprow rcp \<noteq> i then Inl Fatal
          else ebind (nth_e slk i) (\<lambda>s.
            if s > FUZZ then Inr (rws[nat row := rcp\<lparr>lprow := -1\<rparr>], lpr, j, dlist @ [i])
            else if (flags rcp AND RCON_FLAG_DISCARD) \<noteq> 0 then
              Inr (rws[nat row := rcp\<lparr>lprow := -1\<rparr>], lpr, j, dlist @ [i])
            else ebind (upd_e lpr j row) (\<lambda>lpr'.
              Inr (rws[nat row := rcp\<lparr>lprow := j\<rparr>], lpr', j + 1, dlist))))))"

definition copy_pending :: "int \<Rightarrow> int \<Rightarrow> int list \<times> int \<Rightarrow> error + int list \<times> int" where
  "copy_pending n i st =
     (case st of (lpr, j) \<Rightarrow>
        ebind (nth_e lpr (n + i)) (\<lambda>row.
        ebind (upd_e lpr j row) (\<lambda>lpr'. Inr (lpr', j + 1))))"

text \<open>The engine's batch deletion: the rows whose flag is 1 are removed, the others keep
  their order.\<close>

definition delsetrows :: "lp_t \<Rightarrow> int list \<Rightarrow> lp_t" where
  "delsetrows l rowflags =
     l\<lparr>lp_rows := map fst (filter (\<lambda>(r, f). f \<noteq> 1) (zip (lp_rows l) rowflags))\<rparr>"

definition set_flags :: "int \<Rightarrow> int list \<Rightarrow> error + int list" where
  "set_flags n dlist = efold (\<lambda>d fl. upd_e fl d 1) dlist (replicate (nat n) 0)"

definition delete_slack_rows_from_LP :: "bbinfo \<Rightarrow> error + bbinfo" where
  "delete_slack_rows_from_LP bbip =
     (let pool = cpool bbip; nodep = node bbip in
      if node_z nodep \<le> delrow_z nodep then Inr bbip
      else if int (length (lp_rows (lp bbip))) \<noteq> nlprows pool then Inl Fatal
      else let n = nlprows pool in
        ebind (efold (count_slack pool (slack bbip)) [0 .. n - 1] (0, 0)) (\<lambda>_.
        ebind (efold (slack_step (slack bbip)) [0 .. n - 1] (rows pool, lprows pool, 0, []))
          (\<lambda>(rws, lpr, j, dlist).
        ebind (efold (copy_pending n) [0 .. npend pool - 1] (lpr, j)) (\<lambda>(lpr', _).
          let pool' = pool\<lparr>rows := rws, lprows := lpr', nlprows := j\<rparr> in
          if dlist \<noteq> [] then
            ebind (set_flags n dlist) (\<lambda>rowflags.
              Inr (bbip\<lparr>cpool := pool', lp := delsetrows (lp bbip) rowflags,
                        node := nodep\<lparr>delrow_z := node_z nodep\<rparr>\<rparr>))
          else Inr (bbip\<lparr>cpool := pool'\<rparr>)))))"

subsection \<open>Saving and restoring the basis of a node\<close>

text \<open>The recording loop of \<^verbatim>\<open>_gst_save_node_basis\<close>: every loaded row is locked by a
  reference and its unique identifier and LP position are written to the next free slot of
  the two arrays of \<open>n\<close> entries.\<close>

definition save_step :: "int \<Rightarrow> int \<Rightarrow> rcon list \<times> int list \<times> int list
     \<Rightarrow> error + rcon list \<times> int list \<times> int list" where
  "save_step n i st =
     (case st of (rws, uids, brow) \<Rightarrow>
        ebind (nth_e rws i) (\<lambda>rcp.
          if lprow rcp < 0 then Inr st
          else if int (length uids) \<ge> n then Inl OutOfBounds
          else Inr (rws[nat i := rcp\<lparr>refc := refc rcp + 1\<rparr>], uids @ [uid rcp], brow @ [lprow rcp])))"

definition save_node_basis :: "bbnode \<Rightarrow> bbinfo \<Rightarrow> error + bbnode \<times> bbinfo" where
  "save_node_basis nodep bbip =
     (let pool = cpool bbip; n = nlprows pool in
      if n \<noteq> int (length (lp_rows (lp bbip))) then Inl Fatal
      else
        ebind (efold (save_step n) [0 .. nrows pool - 1] (rows pool, [], [])) (\<lambda>(rws, uids, brow).
          if int (length uids) \<noteq> n then Inl Fatal
          else Inr (nodep\<lparr>n_uids := n, bc_uids := Some uids, bc_row := Some brow,
                          rstat := Some (lp_rstat (lp bbip)), cstat := Some (lp_cstat (lp bbip))\<rparr>,
                    bbip\<lparr>cpool := pool\<lparr>rows := rws\<rparr>\<rparr>)))"

text \<open>Restoring.  Every row the pool lists as loaded goes back to "not in the LP"; an
  entry below zero is skipped.\<close>

definition unload_step :: "int list \<Rightarrow> int \<Rightarrow> rcon list \<Rightarrow> error + rcon list" where
  "unload_step lpr i rws =
     ebind (nth_e lpr i) (\<lambda>row.
       if row < 0 then Inr rws
       else if row \<ge> int (length rws) then Inl Fatal
       else Inr (rws[nat row := (rws ! nat row)\<lparr>lprow := -1\<rparr>]))"

text \<open>The search for a saved identifier moves a cursor forward through the pool and never
  back: the saved rows are met in pool order.\<close>

function find_uid :: "rcon list \<Rightarrow> nat \<Rightarrow> int \<Rightarrow> error + nat" where
  "find_uid rws pos u =
     (if pos \<ge> length rws then Inl Fatal
      else if uid (rws ! pos) = u then Inr pos
      else find_uid rws (Suc pos) u)"
  by pat_completeness auto
termination
  by (relation "measure (\<lambda>(rws, pos, u). length rws - pos)") auto

declare find_uid.simps [simp del]

definition replay_step :: "int \<Rightarrow> int list \<Rightarrow> int list \<Rightarrow> int \<Rightarrow> rcon list \<times> int list \<times> nat
     \<Rightarrow> error + rcon list \<times> int list \<times> nat" where
  "replay_step n uids brow i st =
     (case st of (rws, lpr, pos) \<Rightarrow>
        ebind (nth_e uids i) (\<lambda>u.
        ebind (nth_e brow i) (\<lambda>j.
        ebind (find_uid rws pos u) (\<lambda>p.
          let rcp = (rws ! p)\<lparr>refc := refc (rws ! p) - 1\<rparr> in
          if lprow rcp \<noteq> -1 \<or> j < 0 \<or> j \<ge> n then Inl Fatal
          else ebind (nth_e lpr j) (\<lambda>cur.
            if cur \<noteq> -1 then Inl Fatal
            else Inr (rws[p := rcp\<lparr>lprow := -2\<rparr>], lpr[nat j := int p], p))))))"

text \<open>The pool side of restoring: the loaded rows are unloaded, the slots of the \<open>lprows\<close>
  array are cleared, and the saved rows are made pending, each at its saved position.\<close>

definition restore_pending :: "bbnode \<Rightarrow> int list \<Rightarrow> cpool \<Rightarrow> error + cpool" where
  "restore_pending nodep uids pool1 =
     ebind (efold (unload_step (lprows pool1)) [0 .. nlprows pool1 - 1] (rows pool1)) (\<lambda>rws1.
       let nu = n_uids nodep in
       if nu > maxrows pool1 then Inl Fatal
       else
         ebind (efold (\<lambda>i lpr. upd_e lpr i (-1)) [0 .. nu - 1] (lprows pool1)) (\<lambda>lpr1.
         (case bc_row nodep of
            None \<Rightarrow> Inl OutOfBounds
          | Some brow \<Rightarrow>
              ebind (efold (replay_step nu uids brow) [0 .. nu - 1] (rws1, lpr1, 0))
                (\<lambda>(rws2, lpr2, _).
                   Inr (pool1\<lparr>rows := rws2, lprows := lpr2, nlprows := 0, npend := nu\<rparr>)))))"

definition restore_finish :: "bbnode \<Rightarrow> bbinfo \<Rightarrow> bbnode \<times> bbinfo" where
  "restore_finish nodep bb3 =
     (nodep\<lparr>n_uids := 0, bc_uids := None, bc_row := None, rstat := None, cstat := None\<rparr>,
      (case (cstat nodep, rstat nodep) of
         (Some cs, Some rs) \<Rightarrow> bb3\<lparr>lp := (lp bb3)\<lparr>lp_cstat := cs, lp_rstat := rs\<rparr>\<rparr>
       | _ \<Rightarrow> bb3))"

text \<open>\<^verbatim>\<open>_gst_restore_node_basis\<close>: when the engine's row count \<open>n\<close> differs from the pool's
  \<open>nlprows\<close>, the pool's count is overwritten with \<open>n\<close> and the routine goes on; all \<open>n\<close> rows
  of the engine are deleted, the saved rows are pushed back, and the saved basis is installed.\<close>

definition restore_node_basis :: "bbnode \<Rightarrow> bbinfo \<Rightarrow> error + bbnode \<times> bbinfo" where
  "restore_node_basis nodep bbip =
     (case bc_uids nodep of
        None \<Rightarrow> Inl Fatal
      | Some uids \<Rightarrow>
          let pool0 = cpool bbip;
              n = int (length (lp_rows (lp bbip)));
              pool1 = (if n \<noteq> nlprows pool0 then pool0\<lparr>nlprows := n\<rparr> else pool0)
          in
          if npend pool1 \<noteq> 0 then Inl Fatal
          else
            ebind (restore_pending nodep uids pool1) (\<lambda>pool2.
            ebind (add_pending_rows_to_LP
                     (bbip\<lparr>cpool := pool2, lp := delsetrows (lp bbip) (replicate (nat n) 1)\<rparr>))
              (\<lambda>bb3. Inr (restore_finish nodep bb3))))"

text \<open>A state in which the LP holds one row more than the pool has recorded as loaded: the
  pool row \<open>x1 + x2 \<le> 1\<close> is loaded at LP position 0 and locked by the saved node, and the LP
  has a second row that the pool does not track.\<close>

definition rcon_x1_x2 :: rcon where
  "rcon_x1_x2 = \<lparr>len = 2, coefs = row_x1_x2_le_1, next_r = -1, lprow = 0, biter = 0, hval = 6,
     flags = 0, uid = 0, refc = 1\<rparr>"

definition pool_out_of_sync :: cpool where
  "pool_out_of_sync = \<lparr>uid_p = 1, rows = [rcon_x1_x2], maxrows = 2, lprows = [0, 0], nlprows = 1,
     npend = 0, hash = (replicate 1009 (-1))[6 := 0], iter_p = 0, initrows = 1, num_nz = 2,
     hwmrow = 1, hwmnz = 2\<rparr>"

definition lp_out_of_sync :: lp_t where
  "lp_out_of_sync = \<lparr>lp_rows = [row_x1_x2_le_1, row_2_3_5], lp_ncols = 3, lp_cstat = [0, 0, 0],
     lp_rstat = [1, 1]\<rparr>"

definition node_saved :: bbnode where
  "node_saved = \<lparr>node_z = 1, delrow_z = 0, cpiter = -1, node_x = [0, 0, 0], n_uids = 1,
     bc_uids = Some [0], bc_row = Some [0], rstat = Some [1], cstat = Some [0, 0, 0]\<rparr>"

definition bb_out_of_sync :: bbinfo where
  "bb_out_of_sync = \<lparr>cpool = pool_out_of_sync, lp = lp_out_of_sync, node = node_saved,
     slack = [0, 0]\<rparr>"

text \<open>The rows \<^verbatim>\<open>_gst_delete_slack_rows_from_LP\<close> takes out of the LP: LP row \<open>i\<close> goes when its
  slack exceeds the tolerance or when the pool row behind it carries the discard flag.  The
  survivors among the first \<open>n\<close> LP rows are listed in LP order.\<close>

definition deleted :: "cpool \<Rightarrow> real list \<Rightarrow> nat \<Rightarrow> bool" where
  "deleted pool slk i \<longleftrightarrow>
     slk ! i > FUZZ \<or> (flags (rows pool ! nat (lprows pool ! i)) AND RCON_FLAG_DISCARD) \<noteq> 0"

definition survivors :: "cpool \<Rightarrow> real list \<Rightarrow> nat \<Rightarrow> nat list" where
  "survivors pool slk n = filter (\<lambda>i. \<not> deleted pool slk i) [0 ..< n]"

text \<open>The LP position a pool row \<open>r\<close> has after the first \<open>k\<close> LP rows have been processed:
  a processed row is either out of the LP or has moved up past the deleted rows before it.\<close>

definition moved_lprow :: "cpool \<Rightarrow> real list \<Rightarrow> nat \<Rightarrow> nat \<Rightarrow> int" where
  "moved_lprow pool slk k r =
     (let i = lprow (rows pool ! r) in
      if 0 \<le> i \<and> i < int k \<and> lprows pool ! nat i = int r
      then (if deleted pool slk (nat i) then -1 else int (length (survivors pool slk (nat i))))
      else i)"

text \<open>The invariant of the main loop after \<open>k\<close> LP rows.\<close>

definition slack_inv :: "cpool \<Rightarrow> real list \<Rightarrow> nat \<Rightarrow> rcon list \<times> int list \<times> int \<times> int list \<Rightarrow> bool" where
  "slack_inv pool slk k st \<longleftrightarrow>
     (case st of (rws, lpr, j, dlist) \<Rightarrow>
        dlist = map int (filter (deleted pool slk) [0 ..< k]) \<and>
        j = int (length (survivors pool slk k)) \<and>
        length rws = length (rows pool) \<and> length lpr = length (lprows pool) \<and>
        (\<forall>m < length (survivors pool slk k). lpr ! m = lprows pool ! (survivors pool slk k ! m)) \<and>
        (\<forall>m. length (survivors pool slk k) \<le> m \<and> m < length (lprows pool) \<longrightarrow> lpr ! m = lprows pool ! m) \<and>
        (\<forall>i < k. 0 \<le> lprows pool ! i \<and> lprows pool ! i < int (length (rows pool)) \<and>
            lprow (rows pool ! nat (lprows pool ! i)) = int i) \<and>
        (\<forall>r < length (rows pool). rws ! r = (rows pool ! r)\<lparr>lprow := moved_lprow pool slk k r\<rparr>))"

text \<open>A state with three loaded rows: LP row 0 is slack, LP row 1 is tight, LP row 2 is tight
  but flagged for discarding; the node's bound has improved since the last deletion.\<close>

definition pool_three_loaded :: cpool where
  "pool_three_loaded = \<lparr>uid_p = 3,
     rows = [\<lparr>len = 2, coefs = row_x1_x2_le_1, next_r = -1, lprow = 0, biter = 0, hval = 6,
               flags = 0, uid = 0, refc = 0\<rparr>,
             \<lparr>len = 3, coefs = row_2_3_5, next_r = -1, lprow = 1, biter = 0, hval = 7,
               flags = 0, uid = 1, refc = 0\<rparr>,
             \<lparr>len = 3, coefs = row_6_9_15, next_r = -1, lprow = 2, biter = 0, hval = 8,
               flags = 1, uid = 2, refc = 0\<rparr>],
     maxrows = 4, lprows = [0, 1, 2, 0], nlprows = 3, npend = 0,
     hash = ((replicate 1009 (-1))[6 := 0, 7 := 1, 8 := 2]), iter_p = 0, initrows = 1,
     num_nz = 8, hwmrow = 3, hwmnz = 8\<rparr>"

definition bb_three_loaded :: bbinfo where
  "bb_three_loaded = \<lparr>cpool = pool_three_loaded,
     lp = \<lparr>lp_rows = [row_x1_x2_le_1, row_2_3_5, row_6_9_15], lp_ncols = 3,
            lp_cstat = [0, 0, 0], lp_rstat = [1, 1, 1]\<rparr>,
     node = \<lparr>node_z = 1, delrow_z = 0, cpiter = -1, node_x = [0, 0, 0], n_uids = 0,
              bc_uids = None, bc_row = None, rstat = None, cstat = None\<rparr>,
     slack = [1 / 2, 0, 0]\<rparr>"

definition bb_three_loaded_after :: bbinfo where
  "bb_three_loaded_after = bb_three_loaded\<lparr>
     cpool := pool_three_loaded\<lparr>
       rows := [\<lparr>len = 2, coefs = row_x1_x2_le_1, next_r = -1, lprow = -1, biter = 0, hval = 6,
                   flags = 0, uid = 0, refc = 0\<rparr>,
                 \<lparr>len = 3, coefs = row_2_3_5, next_r = -1, lprow = 0, biter = 0, hval = 7,
                   flags = 0, uid = 1, refc = 0\<rparr>,
                 \<lparr>len = 3, coefs = row_6_9_15, next_r = -1, lprow = -1, biter = 0, hval = 8,
                   flags = 1, uid = 2, refc = 0\<rparr>],
       lprows := [1, 1, 2, 0], nlprows := 1\<rparr>,
     lp := \<lparr>lp_rows = [row_2_3_5], lp_ncols = 3, lp_cstat = [0, 0, 0], lp_rstat = [1, 1, 1]\<rparr>,
     node := \<lparr>node_z = 1, delrow_z = 1, cpiter = -1, node_x = [0, 0, 0], n_uids = 0,
               bc_uids = None, bc_row = None, rstat = None, cstat = None\<rparr>\<rparr>"

subsection \<open>Consistency of the pool\<close>

text \<open>
  The checks of \<^verbatim>\<open>verify_pool\<close> (compiled out in the source, kept there as the statement
  of what a consistent pool is): every stored row is a run of variables below \<open>nvars\<close> closed
  by a known operator, with \<open>len\<close> counting the variables; a row whose \<open>lprow\<close> is \<open>j \<ge> 0\<close> is
  entry \<open>j\<close> of \<open>lprows\<close>, with \<open>j < nlprows\<close>; and entry \<open>i < nlprows\<close> of \<open>lprows\<close> is a row whose
  \<open>lprow\<close> is \<open>i\<close>.
\<close>

definition row_stored :: "int \<Rightarrow> rcon \<Rightarrow> bool" where
  "row_stored nvars rc \<longleftrightarrow>
     row_shape (coefs rc) \<and> known_op (coefs rc) \<and>
     list_all (\<lambda>p. var p - RC_VAR_BASE < nvars) (butlast (coefs rc)) \<and>
     len rc = int (length (coefs rc)) - 1"

definition lp_index_ok :: "cpool \<Rightarrow> bool" where
  "lp_index_ok pool \<longleftrightarrow>
     0 \<le> nlprows pool \<and> nlprows pool \<le> int (length (lprows pool)) \<and>
     (\<forall>r < length (rows pool). 0 \<le> lprow (rows pool ! r) \<longrightarrow>
        lprow (rows pool ! r) < nlprows pool \<and> lprows pool ! nat (lprow (rows pool ! r)) = int r) \<and>
     (\<forall>i < nat (nlprows pool). 0 \<le> lprows pool ! i \<and> lprows pool ! i < int (length (rows pool)) \<and>
        lprow (rows pool ! nat (lprows pool ! i)) = int i)"

text \<open>Between two pushes no row is pending: every row is either loaded or not in the LP.\<close>

definition no_pending :: "cpool \<Rightarrow> bool" where
  "no_pending pool \<longleftrightarrow> npend pool = 0 \<and> list_all (\<lambda>rc. -1 \<le> lprow rc) (rows pool)"

text \<open>Rows are appended with increasing unique identifiers and are never reordered.\<close>

definition uids_increasing :: "cpool \<Rightarrow> bool" where
  "uids_increasing pool \<longleftrightarrow> sorted_wrt (<) (map uid (rows pool))"

definition pool_consistent :: "int \<Rightarrow> cpool \<Rightarrow> bool" where
  "pool_consistent nvars pool \<longleftrightarrow>
     list_all (row_stored nvars) (rows pool) \<and> lp_index_ok pool \<and> no_pending pool \<and>
     uids_increasing pool \<and> maxrows pool = int (length (lprows pool))"

text \<open>The LP holds, row for row, the content of the pool rows listed in \<open>lprows\<close>.\<close>

definition lp_matches_pool :: "bbinfo \<Rightarrow> bool" where
  "lp_matches_pool bbip \<longleftrightarrow>
     int (length (lp_rows (lp bbip))) = nlprows (cpool bbip) \<and>
     (\<forall>i < length (lp_rows (lp bbip)).
        lp_rows (lp bbip) ! i = coefs (rows (cpool bbip) ! nat (lprows (cpool bbip) ! i)))"

text \<open>The pool numbers of the loaded rows, in pool order.\<close>

definition loaded_idx :: "rcon list \<Rightarrow> nat list" where
  "loaded_idx rws = filter (\<lambda>r. 0 \<le> lprow (rws ! r)) [0 ..< length rws]"

text \<open>What loading rows into the LP and deleting slack rows from it may change in a pool:
  the \<open>lprow\<close> field and the binding stamp of the row headers, the \<open>lprows\<close> array and the
  counts that go with it; the rows themselves, their identifiers and their reference counts stay.\<close>

definition same_rows :: "cpool \<Rightarrow> cpool \<Rightarrow> bool" where
  "same_rows p q \<longleftrightarrow>
     map (\<lambda>rc. rc\<lparr>lprow := 0, biter := 0\<rparr>) (rows p) = map (\<lambda>rc. rc\<lparr>lprow := 0, biter := 0\<rparr>) (rows q) \<and>
     maxrows p = maxrows q"

text \<open>Saving locks each loaded row with one more reference.\<close>

definition lock_rows :: "rcon list \<Rightarrow> rcon list" where
  "lock_rows rws = map (\<lambda>rc. if 0 \<le> lprow rc then rc\<lparr>refc := refc rc + 1\<rparr> else rc) rws"

text \<open>A scenario for the round trip: a pool with the row \<open>x1 + x2 \<le> 1\<close> loaded and a second
  row stored but not loaded.  After the node is saved, work on another node loads the second
  row and then deletes it again as slack.\<close>

definition bb_rt0 :: bbinfo where
  "bb_rt0 = \<lparr>cpool = \<lparr>uid_p = 2,
       rows = [\<lparr>len = 2, coefs = row_x1_x2_le_1, next_r = -1, lprow = 0, biter = 0, hval = 6,
                 flags = 0, uid = 0, refc = 0\<rparr>,
               \<lparr>len = 3, coefs = row_2_3_5, next_r = -1, lprow = -1, biter = 0, hval = 7,
                 flags = 0, uid = 1, refc = 0\<rparr>],
       maxrows = 2, lprows = [0, 0], nlprows = 1, npend = 0,
       hash = ((replicate 1009 (-1))[6 := 0, 7 := 1]), iter_p = 0, initrows = 1,
       num_nz = 5, hwmrow = 1, hwmnz = 2\<rparr>,
     lp = \<lparr>lp_rows = [row_x1_x2_le_1], lp_ncols = 3, lp_cstat = [0, 1, 0], lp_rstat = [1]\<rparr>,
     node = \<lparr>node_z = 1, delrow_z = 0, cpiter = -1, node_x = [0, 0, 0], n_uids = 0,
              bc_uids = None, bc_row = None, rstat = None, cstat = None\<rparr>,
     slack = [0, 0]\<rparr>"

definition other_node_work :: "bbinfo \<Rightarrow> error + bbinfo" where
  "other_node_work s =
     ebind (mark_row_pending_to_LP (cpool s) 1) (\<lambda>p.
     ebind (add_pending_rows_to_LP (s\<lparr>cpool := p\<rparr>)) (\<lambda>sa.
       delete_slack_rows_from_LP (sa\<lparr>slack := [0, 1 / 2]\<rparr>)))"

definition node_rt1 :: bbnode where
  "node_rt1 = (node bb_rt0)\<lparr>n_uids := 1, bc_uids := Some [0], bc_row := Some [0],
     rstat := Some [1], cstat := Some [0, 1, 0]\<rparr>"

definition bb_rt1 :: bbinfo where
  "bb_rt1 = bb_rt0\<lparr>cpool := (cpool bb_rt0)\<lparr>rows := lock_rows (rows (cpool bb_rt0))\<rparr>\<rparr>"

definition bb_rt2 :: bbinfo where
  "bb_rt2 = bb_rt1\<lparr>cpool := (cpool bb_rt1)\<lparr>lprows := [0, 1], hwmrow := 2, hwmnz := 5\<rparr>,
     node := (node bb_rt1)\<lparr>delrow_z := 1\<rparr>, slack := [0, 1 / 2]\<rparr>"

section \<open>Adding a row to the pool\<close>

text \<open>
  The hash of a row is computed in a C \<^verbatim>\<open>int\<close> by the macro
  \<^verbatim>\<open>_HASH(reg, value)\<close>: \<^verbatim>\<open>reg ^= value; reg = (reg < 0) ? (reg << 1) + 1 : (reg << 1);\<close>
  that is, exclusive-or followed by a rotation by one bit of the 32-bit word.  The variable and
  the coefficient of every left-hand side entry are hashed; the operator entry is not.  The
  loop also counts the left-hand side entries.
\<close>

definition HASH :: "32 word \<Rightarrow> 32 word \<Rightarrow> 32 word" where
  "HASH reg v = (let r = xor reg v in if sint r < 0 then push_bit 1 r + 1 else push_bit 1 r)"

fun hash_row :: "32 word \<Rightarrow> int \<Rightarrow> rcoef list \<Rightarrow> error + 32 word \<times> int" where
  "hash_row reg n [] = Inl OutOfBounds"
| "hash_row reg n (p # ps) =
     (if var p < RC_VAR_BASE then Inr (reg, n)
      else hash_row (HASH (HASH reg (word_of_int (var p))) (word_of_int (val p))) (n + 1) ps)"

text \<open>\<^verbatim>\<open>hval %= CPOOL_HASH_SIZE; if (hval < 0) hval += CPOOL_HASH_SIZE;\<close>\<close>

definition bucket :: "32 word \<Rightarrow> int" where
  "bucket reg = (let h = sint reg smod CPOOL_HASH_SIZE in if h < 0 then h + CPOOL_HASH_SIZE else h)"

text \<open>
  The scan of a hash bucket follows the \<open>next_r\<close> links from the bucket head until a row with
  the same length and the same \<open>n + 1\<close> entries is met (\<^verbatim>\<open>memcmp\<close> over the left-hand side
  and the operator entry) or the chain ends.  On a cyclic chain the source loops forever: the
  scan runs on fuel, and \<open>None\<close> is non-termination.  A chain without a cycle visits at most
  every row once, so \<open>nrows + 1\<close> units of fuel never run out on it.
\<close>

fun scan_bucket :: "nat \<Rightarrow> rcon list \<Rightarrow> int \<Rightarrow> int \<Rightarrow> rcoef list \<Rightarrow> (error + bool) option" where
  "scan_bucket 0 rws row n rp = None"
| "scan_bucket (Suc fuel) rws row n rp =
     (if row < 0 then Some (Inr False)
      else (case nth_e rws row of
              Inl e \<Rightarrow> Some (Inl e)
            | Inr rcp \<Rightarrow>
                if len rcp = n \<and> take (nat (n + 1)) (coefs rcp) = take (nat (n + 1)) rp
                then Some (Inr True)
                else scan_bucket fuel rws (next_r rcp) n rp))"

text \<open>
  Appending the new row header.  When the header array is full, both arrays are reallocated
  at twice the size; the new cells of \<open>lprows\<close> are not initialised by the source, so their
  content is left unspecified here.
\<close>

definition grow_lprows :: "cpool \<Rightarrow> error + cpool" where
  "grow_lprows pool =
     (if nrows pool \<ge> maxrows pool then
        (if 2 * maxrows pool \<le> nrows pool then Inl OutOfBounds
         else Inr (pool\<lparr>maxrows := 2 * maxrows pool,
                        lprows := take (length (rows pool)) (lprows pool) @
                                  replicate (nat (2 * maxrows pool) - length (rows pool)) undefined\<rparr>))
      else Inr pool)"

definition append_row :: "cpool \<Rightarrow> rcoef list \<Rightarrow> int \<Rightarrow> int \<Rightarrow> bool \<Rightarrow> error + bool \<times> cpool" where
  "append_row pool rp n hv add_to_lp =
     ebind (grow_lprows (pool\<lparr>num_nz := num_nz pool + n\<rparr>)) (\<lambda>pool1.
     ebind (nth_e (hash pool1) hv) (\<lambda>head.
       let row = nrows pool1;
           rcp = \<lparr>len = n, coefs = take (nat (n + 1)) rp, next_r = head, lprow = -1,
                  biter = iter_p pool1, hval = hv, flags = 0, uid = uid_p pool1, refc = 0\<rparr>;
           pool2 = pool1\<lparr>rows := rows pool1 @ [rcp], uid_p := uid_p pool1 + 1,
                         hash := (hash pool1)[nat hv := row]\<rparr>
       in if add_to_lp then ebind (mark_row_pending_to_LP pool2 row) (\<lambda>pool3. Inr (True, pool3))
          else Inr (True, pool2)))"

text \<open>\<^verbatim>\<open>_gst_add_constraint_to_pool\<close>: the result \<open>True\<close> is "inserted", \<open>False\<close> is
  "already present".\<close>

definition add_constraint_to_pool :: "cpool \<Rightarrow> rcoef list \<Rightarrow> bool \<Rightarrow> (error + bool \<times> cpool) option" where
  "add_constraint_to_pool pool rp0 add_to_lp =
     (case reduce_constraint rp0 of
        Inl e \<Rightarrow> Some (Inl e)
      | Inr rp \<Rightarrow>
          (case hash_row 0 0 rp of
             Inl e \<Rightarrow> Some (Inl e)
           | Inr (reg, n) \<Rightarrow>
               let hv = bucket reg in
               (case nth_e (hash pool) hv of
                  Inl e \<Rightarrow> Some (Inl e)
                | Inr head \<Rightarrow>
                    (case scan_bucket (length (rows pool) + 1) (rows pool) head n rp of
                       None \<Rightarrow> None
                     | Some (Inl e) \<Rightarrow> Some (Inl e)
                     | Some (Inr True) \<Rightarrow> Some (Inr (False, pool))
                     | Some (Inr False) \<Rightarrow> Some (append_row pool rp n hv add_to_lp)))))"

subsection \<open>Consistency of the hash chains\<close>

text \<open>The rows met from a chain head, in order.\<close>

fun chain :: "nat \<Rightarrow> rcon list \<Rightarrow> int \<Rightarrow> int list" where
  "chain 0 rws h = []"
| "chain (Suc fuel) rws h =
     (if h < 0 \<or> int (length rws) \<le> h then [] else h # chain fuel rws (next_r (rws ! nat h)))"

text \<open>The normal form of a raw row (what is stored of it) and the bucket it belongs to.\<close>

definition stored_form :: "rcoef list \<Rightarrow> (int \<times> rcoef list) option" where
  "stored_form rp0 =
     (case reduce_constraint rp0 of
        Inl e \<Rightarrow> None
      | Inr rp \<Rightarrow> (case hash_row 0 0 rp of Inl e \<Rightarrow> None | Inr (reg, n) \<Rightarrow> Some (n, take (nat (n + 1)) rp)))"

definition row_bucket :: "rcoef list \<Rightarrow> int" where
  "row_bucket c = (case hash_row 0 0 c of Inl e \<Rightarrow> -1 | Inr (reg, n) \<Rightarrow> bucket reg)"

definition holds_row :: "cpool \<Rightarrow> int \<times> rcoef list \<Rightarrow> bool" where
  "holds_row pool nc \<longleftrightarrow>
     (\<exists>rc \<in> set (rows pool). len rc = fst nc \<and> take (nat (fst nc + 1)) (coefs rc) = snd nc)"

definition copies :: "cpool \<Rightarrow> int \<times> rcoef list \<Rightarrow> nat" where
  "copies pool nc =
     length (filter (\<lambda>rc. len rc = fst nc \<and> take (nat (fst nc + 1)) (coefs rc) = snd nc) (rows pool))"

text \<open>
  Hash chains are consistent when the table has its full size, every link points to a row
  with a smaller number (a new row is threaded in front of its bucket, and older rows have
  smaller numbers), and every row is met on the chain of the bucket its coefficients hash to.
\<close>

definition hash_ok :: "cpool \<Rightarrow> bool" where
  "hash_ok pool \<longleftrightarrow>
     int (length (hash pool)) = CPOOL_HASH_SIZE \<and>
     list_all (\<lambda>h. -1 \<le> h \<and> h < nrows pool) (hash pool) \<and>
     (\<forall>r < length (rows pool). -1 \<le> next_r (rows pool ! r) \<and> next_r (rows pool ! r) < int r) \<and>
     (\<forall>r < length (rows pool). 0 \<le> row_bucket (coefs (rows pool ! r)) \<and>
        int r \<in> set (chain (length (rows pool)) (rows pool)
                       (hash pool ! nat (row_bucket (coefs (rows pool ! r))))))"

text \<open>
  The arrays have room when the header array and \<open>lprows\<close> are allocated with \<open>maxrows\<close>
  cells, not more rows are stored than allocated, and the loaded and pending rows are rows of
  the pool.
\<close>

definition room_ok :: "cpool \<Rightarrow> bool" where
  "room_ok pool \<longleftrightarrow>
     0 < maxrows pool \<and> nrows pool \<le> maxrows pool \<and> int (length (lprows pool)) = maxrows pool \<and>
     0 \<le> nlprows pool + npend pool \<and> nlprows pool + npend pool \<le> nrows pool"

text \<open>An empty pool with room for four rows, and the same pool once the row \<open>2, 3, 5 \<le> 10\<close>
  is stored in it.\<close>

definition pool_empty :: cpool where
  "pool_empty = \<lparr>uid_p = 0, rows = [], maxrows = 4, lprows = [0, 0, 0, 0], nlprows = 0, npend = 0,
     hash = replicate 1009 (-1), iter_p = 0, initrows = 0, num_nz = 0, hwmrow = 0, hwmnz = 0\<rparr>"

definition pool_one_row :: cpool where
  "pool_one_row = pool_empty\<lparr>uid_p := 1,
     rows := [\<lparr>len = 3, coefs = row_2_3_5, next_r = -1, lprow = -1, biter = 0, hval = 74,
                flags = 0, uid = 0, refc = 0\<rparr>],
     hash := (replicate 1009 (-1))[74 := 0], num_nz := 3\<rparr>"

section \<open>Loops and checked accesses\<close>

lemma ebind_simps [simp]:
  "ebind (Inl e) f = Inl e" "ebind (Inr v) f = f v"
  by (simp_all add: ebind_def)

lemma ebind_eq_Inr: "ebind m f = Inr t \<longleftrightarrow> (\<exists>v. m = Inr v \<and> f v = Inr t)"
  by (cases m) auto

lemma nth_e_eq_Inr: "nth_e xs i = Inr v \<longleftrightarrow> 0 \<le> i \<and> i < int (length xs) \<and> v = xs ! nat i"
  by (auto simp: nth_e_def)

lemma upd_e_eq_Inr: "upd_e xs i v = Inr ys \<longleftrightarrow> 0 \<le> i \<and> i < int (length xs) \<and> ys = xs[nat i := v]"
  by (auto simp: upd_e_def)

lemma efold_append: "efold f (xs @ ys) s = ebind (efold f xs s) (efold f ys)"
  by (induction xs arbitrary: s) (auto split: sum.splits)

lemma efold_single: "efold f [x] s = f x s"
  by (cases "f x s") simp_all

lemma efold_snoc: "efold f (xs @ [x]) s = ebind (efold f xs s) (f x)"
  by (simp add: efold_append efold_single[abs_def])

lemma upto_as_upt: "[0 .. int m - 1] = map int [0 ..< m]"
proof (induction m)
  case 0
  then show ?case by simp
next
  case (Suc m)
  have "[0 .. int (Suc m) - 1] = [0 .. int m - 1] @ [int m]"
    using upto_rec2[of 0 "int m"] by simp
  then show ?case using Suc by simp
qed

lemma upto_nat: "[0 .. n - 1] = map int [0 ..< nat n]"
proof (cases "0 \<le> n")
  case True
  then show ?thesis using upto_as_upt[of "nat n"] by simp
next
  case False
  then show ?thesis by simp
qed

lemma efold_upt_rule:
  assumes "efold f (map int [0 ..< m]) s = Inr t"
    and "P 0 s"
    and "\<And>k u v. k < m \<Longrightarrow> P k u \<Longrightarrow> f (int k) u = Inr v \<Longrightarrow> P (Suc k) v"
  shows "P m t"
  using assms
proof (induction m arbitrary: t)
  case 0
  then show ?case by simp
next
  case (Suc m)
  from Suc.prems(1) obtain u where u: "efold f (map int [0 ..< m]) s = Inr u" and v: "f (int m) u = Inr t"
    by (auto simp: efold_snoc ebind_eq_Inr)
  have "P m u" using Suc.IH[OF u Suc.prems(2)] Suc.prems(3) by simp
  then show ?case using Suc.prems(3)[of m u t] v by simp
qed

lemma efold_upt_total:
  assumes "P 0 s"
    and "\<And>k u. k < m \<Longrightarrow> P k u \<Longrightarrow> \<exists>v. f (int k) u = Inr v \<and> P (Suc k) v"
  shows "\<exists>t. efold f (map int [0 ..< m]) s = Inr t \<and> P m t"
  using assms
proof (induction m)
  case 0
  then show ?case by simp
next
  case (Suc m)
  from Suc.IH[OF Suc.prems(1)] Suc.prems(2)
  obtain u where u: "efold f (map int [0 ..< m]) s = Inr u" "P m u" by auto
  from Suc.prems(2)[of m u] u obtain v where "f (int m) u = Inr v" "P (Suc m) v" by auto
  then show ?case using u by (auto simp: efold_snoc)
qed

lemma efold_map_total:
  assumes "P 0 s"
    and "\<And>k u. k < m \<Longrightarrow> P k u \<Longrightarrow> \<exists>v. f (g k) u = Inr v \<and> P (Suc k) v"
  shows "\<exists>t. efold f (map g [0 ..< m]) s = Inr t \<and> P m t"
  using assms
proof (induction m)
  case 0
  then show ?case by simp
next
  case (Suc m)
  from Suc.IH[OF Suc.prems(1)] Suc.prems(2)
  obtain u where u: "efold f (map g [0 ..< m]) s = Inr u" "P m u" by auto
  from Suc.prems(2)[of m u] u obtain v where "f (g m) u = Inr v" "P (Suc m) v" by auto
  then show ?case using u by (auto simp: efold_snoc)
qed

lemma efold_map_rule:
  assumes "efold f (map g [0 ..< m]) s = Inr t"
    and "P 0 s"
    and "\<And>k u v. k < m \<Longrightarrow> P k u \<Longrightarrow> f (g k) u = Inr v \<Longrightarrow> P (Suc k) v"
  shows "P m t"
  using assms
proof (induction m arbitrary: t)
  case 0
  then show ?case by simp
next
  case (Suc m)
  from Suc.prems(1) obtain u where u: "efold f (map g [0 ..< m]) s = Inr u" and v: "f (g m) u = Inr t"
    by (auto simp: efold_snoc ebind_eq_Inr)
  have "P m u" using Suc.IH[OF u Suc.prems(2)] Suc.prems(3) by simp
  then show ?case using Suc.prems(3)[of m u t] v by simp
qed

lemma upto_shift: "[i .. i + int m - 1] = map (\<lambda>k. i + int k) [0 ..< m]"
proof (induction m)
  case 0
  then show ?case by simp
next
  case (Suc m)
  have "[i .. i + int (Suc m) - 1] = [i .. i + int m - 1] @ [i + int m]"
    using upto_rec2[of i "i + int m"] by simp
  then show ?case using Suc by simp
qed

section \<open>Properties of the row encoding\<close>





























section \<open>Properties of the LP synchronisation\<close>

lemma resync_pool: "(if n \<noteq> nlprows p then p\<lparr>nlprows := n\<rparr> else p) = p\<lparr>nlprows := n\<rparr>"
  by simp

lemma restore_resync:
  "restore_node_basis nodep b =
   restore_node_basis nodep (b\<lparr>cpool := (cpool b)\<lparr>nlprows := int (length (lp_rows (lp b)))\<rparr>\<rparr>)"
proof (cases "int (length (lp_rows (lp b))) = nlprows (cpool b)")
  case True
  then have "b\<lparr>cpool := (cpool b)\<lparr>nlprows := int (length (lp_rows (lp b)))\<rparr>\<rparr> = b" by simp
  then show ?thesis by simp
next
  case False
  then show ?thesis by (cases "bc_uids nodep") (simp_all add: restore_node_basis_def Let_def)
qed

lemma add_pending_out_of_sync:
  "int (length (lp_rows (lp b))) \<noteq> nlprows (cpool b) \<Longrightarrow> add_pending_rows_to_LP b = Inl Fatal"
  by (simp add: add_pending_rows_to_LP_def Let_def)

lemma save_out_of_sync:
  "int (length (lp_rows (lp b))) \<noteq> nlprows (cpool b) \<Longrightarrow> save_node_basis nodep b = Inl Fatal"
  by (simp add: save_node_basis_def Let_def)

lemma delete_slack_out_of_sync:
  "int (length (lp_rows (lp b))) \<noteq> nlprows (cpool b) \<Longrightarrow> node_z (node b) > delrow_z (node b) \<Longrightarrow>
     delete_slack_rows_from_LP b = Inl Fatal"
  by (simp add: delete_slack_rows_from_LP_def Let_def)


lemma upto_simps2: "[0 .. 1] = [0, (1::int)]" "[0 .. 0] = [0::int]" "[0 .. -1] = ([]::int list)"
  by (simp_all add: upto.simps)

text \<open>
  Claim C9 (amended).  When the LP engine's row count differs from the pool's recorded
  loaded-row count, pushing the pending rows aborts fatally on entry, and so do saving a
  node's basis and (once the node's bound has improved) deleting slack rows.  Restoring a
  node's basis does not abort on that difference: it overwrites the pool's count with the
  engine's count and carries on, so it behaves exactly as it does on the re-synchronised state.
\<close>

theorem row_count_mismatch:
  assumes "int (length (lp_rows (lp b))) \<noteq> nlprows (cpool b)"
  shows "add_pending_rows_to_LP b = Inl Fatal \<and>
    save_node_basis nodep b = Inl Fatal \<and>
    (node_z (node b) > delrow_z (node b) \<longrightarrow> delete_slack_rows_from_LP b = Inl Fatal) \<and>
    restore_node_basis nodep b =
      restore_node_basis nodep (b\<lparr>cpool := (cpool b)\<lparr>nlprows := int (length (lp_rows (lp b)))\<rparr>\<rparr>)"
  using assms add_pending_out_of_sync save_out_of_sync delete_slack_out_of_sync
    restore_resync[of nodep b] by simp

theorem row_count_mismatch_witness:
  "int (length (lp_rows (lp bb_out_of_sync))) \<noteq> nlprows (cpool bb_out_of_sync) \<and>
   node_z (node bb_out_of_sync) > delrow_z (node bb_out_of_sync) \<and>
   add_pending_rows_to_LP bb_out_of_sync = Inl Fatal \<and>
   save_node_basis node_saved bb_out_of_sync = Inl Fatal \<and>
   delete_slack_rows_from_LP bb_out_of_sync = Inl Fatal"
proof -
  have h: "int (length (lp_rows (lp bb_out_of_sync))) \<noteq> nlprows (cpool bb_out_of_sync)"
    by (simp add: bb_out_of_sync_def lp_out_of_sync_def pool_out_of_sync_def)
  have z: "node_z (node bb_out_of_sync) > delrow_z (node bb_out_of_sync)"
    by (simp add: bb_out_of_sync_def node_saved_def)
  show ?thesis using h z row_count_mismatch[OF h, of node_saved] by simp
qed

text \<open>
  The counterexample to claim C9 as stated: the engine holds two rows, the pool has recorded
  one, and restoring the saved node returns normally.
\<close>

theorem restore_row_count_mismatch_counterexample:
  "int (length (lp_rows (lp bb_out_of_sync))) \<noteq> nlprows (cpool bb_out_of_sync) \<and>
   is_ok (restore_node_basis node_saved bb_out_of_sync)"
  by code_simp

subsection \<open>Deleting slack rows\<close>

lemma survivors_Suc:
  "survivors pool slk (Suc k) = survivors pool slk k @ (if deleted pool slk k then [] else [k])"
  by (simp add: survivors_def)

lemma survivors_length_le: "length (survivors pool slk k) \<le> k"
  unfolding survivors_def by (rule order_trans[OF length_filter_le]) simp

lemma survivors_lt: "m < length (survivors pool slk k) \<Longrightarrow> survivors pool slk k ! m < k"
  using nth_mem[of m "survivors pool slk k"] by (auto simp: survivors_def)

lemma moved_lprow_0: "moved_lprow pool slk 0 r = lprow (rows pool ! r)"
  by (simp add: moved_lprow_def Let_def)

lemma moved_lprow_Suc:
  assumes "lprow (rows pool ! r0) = int k" "lprows pool ! k = int r0"
  shows "moved_lprow pool slk (Suc k) q =
     (if q = r0 then (if deleted pool slk k then -1 else int (length (survivors pool slk k)))
      else moved_lprow pool slk k q)"
proof (cases "q = r0")
  case True
  then show ?thesis using assms by (simp add: moved_lprow_def Let_def)
next
  case False
  define i where "i = lprow (rows pool ! q)"
  have "\<not> (i = int k \<and> lprows pool ! nat i = int q)" using False assms(2) by auto
  moreover have "i < int (Suc k) \<longleftrightarrow> i < int k \<or> i = int k" by auto
  ultimately have eq: "(0 \<le> i \<and> i < int (Suc k) \<and> lprows pool ! nat i = int q) =
     (0 \<le> i \<and> i < int k \<and> lprows pool ! nat i = int q)" by blast
  have "moved_lprow pool slk (Suc k) q = moved_lprow pool slk k q"
    unfolding moved_lprow_def Let_def i_def[symmetric] by (simp only: eq)
  then show ?thesis using False by simp
qed

lemma moved_lprow_lt:
  assumes "moved_lprow pool slk k r = int k"
  shows "lprow (rows pool ! r) = int k"
proof (rule ccontr)
  assume ne: "lprow (rows pool ! r) \<noteq> int k"
  define i where "i = lprow (rows pool ! r)"
  show False
  proof (cases "0 \<le> i \<and> i < int k \<and> lprows pool ! nat i = int r")
    case True
    then have "moved_lprow pool slk k r = (if deleted pool slk (nat i) then -1 else int (length (survivors pool slk (nat i))))"
      by (simp add: moved_lprow_def i_def Let_def)
    moreover have "length (survivors pool slk (nat i)) \<le> nat i" by (rule survivors_length_le)
    ultimately have "moved_lprow pool slk k r < int k" using True by (auto split: if_splits)
    then show False using assms by simp
  next
    case False
    have "moved_lprow pool slk k r =
       (if 0 \<le> i \<and> i < int k \<and> lprows pool ! nat i = int r
        then (if deleted pool slk (nat i) then -1 else int (length (survivors pool slk (nat i))))
        else i)"
      by (simp add: moved_lprow_def Let_def i_def)
    then have "moved_lprow pool slk k r = i" by (simp only: False if_False)
    then show False using assms ne by (simp add: i_def)
  qed
qed

lemma slack_inv_0: "slack_inv pool slk 0 (rows pool, lprows pool, 0, [])"
  by (simp add: slack_inv_def survivors_def moved_lprow_0)

lemma slack_inv_step:
  assumes inv: "slack_inv pool slk k st" and step: "slack_step slk (int k) st = Inr st'"
  shows "slack_inv pool slk (Suc k) st'"
proof -
  obtain rws lpr j dlist where st: "st = (rws, lpr, j, dlist)" by (cases st) auto
  let ?sv = "survivors pool slk k"
  have I1: "dlist = map int (filter (deleted pool slk) [0 ..< k])"
    and j: "j = int (length ?sv)"
    and len: "length rws = length (rows pool)" "length lpr = length (lprows pool)"
    and I2: "\<And>m. m < length ?sv \<Longrightarrow> lpr ! m = lprows pool ! (?sv ! m)"
    and I3: "\<And>m. length ?sv \<le> m \<Longrightarrow> m < length (lprows pool) \<Longrightarrow> lpr ! m = lprows pool ! m"
    and I4: "\<And>i. i < k \<Longrightarrow> 0 \<le> lprows pool ! i \<and> lprows pool ! i < int (length (rows pool)) \<and>
            lprow (rows pool ! nat (lprows pool ! i)) = int i"
    and I5: "\<And>r. r < length (rows pool) \<Longrightarrow> rws ! r = (rows pool ! r)\<lparr>lprow := moved_lprow pool slk k r\<rparr>"
    using inv unfolding slack_inv_def st by auto
  have svk: "length ?sv \<le> k" by (rule survivors_length_le)
  from step obtain row where
    k1: "k < length lpr" and row: "row = lpr ! k" and r1: "0 \<le> row" "row < int (length rws)"
    and chk: "lprow (rws ! nat row) = int k" and k2: "k < length slk"
    by (auto simp: slack_step_def st ebind_eq_Inr nth_e_eq_Inr split: if_splits)
  have row0: "row = lprows pool ! k" using I3[of k] row svk k1 len by auto
  define r where "r = nat row"
  have r: "r < length (rows pool)" "int r = row" using r1 len by (auto simp: r_def)
  have rwsr: "rws ! r = (rows pool ! r)\<lparr>lprow := moved_lprow pool slk k r\<rparr>"
    using I5 r by blast
  have "moved_lprow pool slk k r = int k" using chk rwsr by (simp add: r_def)
  then have lp0: "lprow (rows pool ! r) = int k" by (rule moved_lprow_lt)
  have fl: "flags (rws ! r) = flags (rows pool ! r)" using rwsr by simp
  have del: "deleted pool slk k \<longleftrightarrow> slk ! k > FUZZ \<or> (flags (rws ! r) AND RCON_FLAG_DISCARD) \<noteq> 0"
    using row0 fl by (simp add: deleted_def r_def)
  have mv: "\<And>q. moved_lprow pool slk (Suc k) q =
     (if q = r then (if deleted pool slk k then -1 else int (length ?sv)) else moved_lprow pool slk k q)"
    using moved_lprow_Suc[OF lp0, of slk] row0 r by simp
  have newi: "\<forall>i < Suc k. 0 \<le> lprows pool ! i \<and> lprows pool ! i < int (length (rows pool)) \<and>
            lprow (rows pool ! nat (lprows pool ! i)) = int i"
  proof (intro allI impI)
    fix i assume "i < Suc k"
    then consider "i < k" | "i = k" by linarith
    then show "0 \<le> lprows pool ! i \<and> lprows pool ! i < int (length (rows pool)) \<and>
            lprow (rows pool ! nat (lprows pool ! i)) = int i"
    proof cases
      case 1 then show ?thesis using I4 by blast
    next
      case 2 then show ?thesis using lp0 r row0 r1 len by (simp add: r_def)
    qed
  qed
  show ?thesis
  proof (cases "deleted pool slk k")
    case True
    have st': "st' = (rws[r := (rws ! r)\<lparr>lprow := -1\<rparr>], lpr, j, dlist @ [int k])"
      using step del True k1 k2 r1 chk row
      by (auto simp: slack_step_def st ebind_eq_Inr nth_e_eq_Inr r_def split: if_splits)
    have sv': "survivors pool slk (Suc k) = ?sv" using True by (simp add: survivors_Suc)
    have rows': "\<forall>q < length (rows pool). (rws[r := (rws ! r)\<lparr>lprow := -1\<rparr>]) ! q =
         (rows pool ! q)\<lparr>lprow := moved_lprow pool slk (Suc k) q\<rparr>"
      using I5 True len r by (auto simp: mv nth_list_update)
    show ?thesis
      unfolding slack_inv_def st' sv' using I1 I2 I3 j True newi rows' len
      by simp
  next
    case False
    have st': "st' = (rws[r := (rws ! r)\<lparr>lprow := j\<rparr>], lpr[nat j := row], j + 1, dlist)"
      using step del False k1 k2 r1 chk row
      by (auto simp: slack_step_def st ebind_eq_Inr nth_e_eq_Inr upd_e_eq_Inr r_def split: if_splits)
    have sv': "survivors pool slk (Suc k) = ?sv @ [k]" using False by (simp add: survivors_Suc)
    have rows': "\<forall>q < length (rows pool). (rws[r := (rws ! r)\<lparr>lprow := j\<rparr>]) ! q =
         (rows pool ! q)\<lparr>lprow := moved_lprow pool slk (Suc k) q\<rparr>"
      using I5 False len r j by (auto simp: mv nth_list_update)
    have lpr1: "\<forall>m < length (?sv @ [k]). lpr[nat j := row] ! m = lprows pool ! ((?sv @ [k]) ! m)"
    proof (intro allI impI)
      fix m assume "m < length (?sv @ [k])"
      then consider "m < length ?sv" | "m = length ?sv" by force
      then show "lpr[nat j := row] ! m = lprows pool ! ((?sv @ [k]) ! m)"
      proof cases
        case 1 then show ?thesis using I2[of m] j by (simp add: nth_append)
      next
        case 2 then show ?thesis using j row0 k1 svk by (simp add: nth_append)
      qed
    qed
    have lpr2: "\<forall>m. length (?sv @ [k]) \<le> m \<and> m < length (lprows pool) \<longrightarrow> lpr[nat j := row] ! m = lprows pool ! m"
      using I3 j by (auto simp: nth_list_update)
    have dl: "dlist = map int (filter (deleted pool slk) [0 ..< Suc k])" using I1 False by simp
    show ?thesis
      unfolding slack_inv_def st' sv' using dl False newi rows' len lpr1 lpr2 j
      by simp
  qed
qed

lemma slack_loop:
  assumes "efold (slack_step slk) [0 .. n - 1] (rows pool, lprows pool, 0, []) = Inr st"
  shows "slack_inv pool slk (nat n) st"
  using assms unfolding upto_nat
  by (rule efold_upt_rule[where P = "slack_inv pool slk"]) (auto intro: slack_inv_0 slack_inv_step)

lemma copy_pending_loop:
  assumes "efold (copy_pending n) [0 .. np - 1] (lpr, j) = Inr st" "0 \<le> j"
  shows "length (fst st) = length lpr \<and> (\<forall>m. int m < j \<longrightarrow> fst st ! m = lpr ! m)"
proof -
  define Q where "Q = (\<lambda>k (st :: int list \<times> int). snd st = j + int k \<and> length (fst st) = length lpr \<and>
     (\<forall>m. int m < j \<longrightarrow> fst st ! m = lpr ! m))"
  have "Q (nat np) st"
    using assms(1) unfolding upto_nat
  proof (rule efold_upt_rule[where P = Q])
    show "Q 0 (lpr, j)" by (simp add: Q_def)
  next
    fix k u v
    assume "Q k u" "copy_pending n (int k) u = Inr v"
    then show "Q (Suc k) v" using assms(2)
      by (cases u) (auto simp: Q_def copy_pending_def ebind_eq_Inr nth_e_eq_Inr upd_e_eq_Inr
          nth_list_update)
  qed
  then show ?thesis by (simp add: Q_def)
qed

lemma set_flags_gen:
  assumes "efold (\<lambda>d fl. upd_e fl d 1) dlist fl0 = Inr fl"
  shows "length fl = length fl0 \<and> (\<forall>i < length fl0. fl ! i = (if int i \<in> set dlist then 1 else fl0 ! i))"
  using assms
proof (induction dlist arbitrary: fl0)
  case Nil
  then show ?case by simp
next
  case (Cons d ds)
  from Cons.prems obtain fl1 where f1: "upd_e fl0 d 1 = Inr fl1" and r: "efold (\<lambda>d fl. upd_e fl d 1) ds fl1 = Inr fl"
    by (auto split: sum.splits)
  have fl1: "fl1 = fl0[nat d := 1]" "0 \<le> d" "d < int (length fl0)" using f1 by (auto simp: upd_e_eq_Inr)
  from Cons.IH[OF r] have "length fl = length fl1"
    "\<forall>i < length fl1. fl ! i = (if int i \<in> set ds then 1 else fl1 ! i)" by auto
  then show ?case using fl1 by (auto simp: nth_list_update)
qed

lemma filter_zip_nth:
  assumes "length xs = length fs"
  shows "map fst (filter (\<lambda>(r, f). P f) (zip xs fs)) = map ((!) xs) (filter (\<lambda>i. P (fs ! i)) [0 ..< length xs])"
proof -
  have z: "zip xs fs = map (\<lambda>i. (xs ! i, fs ! i)) [0 ..< length xs]"
    using assms by (intro nth_equalityI) auto
  show ?thesis
    unfolding z by (simp add: filter_map comp_def case_prod_beta)
qed

lemma delsetrows_survivors:
  assumes "set_flags (int n) (map int (filter (deleted pool slk) [0 ..< n])) = Inr fl"
    and "length (lp_rows l) = n"
  shows "lp_rows (delsetrows l fl) = map ((!) (lp_rows l)) (survivors pool slk n)"
proof -
  from set_flags_gen[OF assms(1)[unfolded set_flags_def]]
  have len: "length fl = n" and fl: "\<And>i. i < n \<Longrightarrow> fl ! i = (if deleted pool slk i then 1 else 0)"
    by (auto simp: image_iff)
  have "filter (\<lambda>i. fl ! i \<noteq> 1) [0 ..< n] = survivors pool slk n"
    unfolding survivors_def by (rule filter_cong) (auto simp: fl)
  then show ?thesis
    using filter_zip_nth[of "lp_rows l" fl "\<lambda>f. f \<noteq> 1"] assms(2) len
    by (simp add: delsetrows_def)
qed

lemma survivors_all:
  assumes "filter (deleted pool slk) [0 ..< n] = []"
  shows "survivors pool slk n = [0 ..< n]"
  using assms unfolding survivors_def by (auto simp: filter_empty_conv filter_id_conv)

lemma filter_upt_position:
  "m < length (filter P [0 ..< n]) \<Longrightarrow> length (filter P [0 ..< filter P [0 ..< n] ! m]) = m"
proof (induction n)
  case 0
  then show ?case by simp
next
  case (Suc n)
  show ?case
  proof (cases "m < length (filter P [0 ..< n])")
    case True
    then show ?thesis using Suc.IH by (simp add: nth_append)
  next
    case False
    then have "P n" "m = length (filter P [0 ..< n])" using Suc.prems by (auto split: if_splits)
    then show ?thesis by (simp add: nth_append)
  qed
qed

lemma survivors_position:
  "m < length (survivors pool slk n) \<Longrightarrow> length (survivors pool slk (survivors pool slk n ! m)) = m"
  unfolding survivors_def by (rule filter_upt_position)

lemma survivors_not_deleted:
  "m < length (survivors pool slk n) \<Longrightarrow> \<not> deleted pool slk (survivors pool slk n ! m)"
  using nth_mem[of m "survivors pool slk n"] by (auto simp: survivors_def)

lemma delete_slack_rows_run:
  assumes ok: "delete_slack_rows_from_LP b = Inr b'" and z: "delrow_z (node b) < node_z (node b)"
  defines "n \<equiv> length (lp_rows (lp b))"
  shows "nlprows (cpool b) = int n"
    and "lp_rows (lp b') = map ((!) (lp_rows (lp b))) (survivors (cpool b) (slack b) n)"
    and "nlprows (cpool b') = int (length (survivors (cpool b) (slack b) n))"
    and "length (rows (cpool b')) = length (rows (cpool b))"
    and "\<forall>r < length (rows (cpool b)). rows (cpool b') ! r =
           (rows (cpool b) ! r)\<lparr>lprow := moved_lprow (cpool b) (slack b) n r\<rparr>"
    and "\<forall>m < length (survivors (cpool b) (slack b) n).
           lprows (cpool b') ! m = lprows (cpool b) ! (survivors (cpool b) (slack b) n ! m)"
    and "\<forall>i < n. 0 \<le> lprows (cpool b) ! i \<and> lprows (cpool b) ! i < int (length (rows (cpool b))) \<and>
            lprow (rows (cpool b) ! nat (lprows (cpool b) ! i)) = int i"
proof -
  let ?pool = "cpool b" and ?slk = "slack b"
  have nz: "\<not> node_z (node b) \<le> delrow_z (node b)" using z by simp
  have sync: "nlprows ?pool = int n"
    using ok nz by (auto simp: delete_slack_rows_from_LP_def Let_def n_def split: if_splits)
  from ok nz sync obtain rws lpr j dlist lpr' j' where
    l1: "efold (slack_step ?slk) [0 .. int n - 1] (rows ?pool, lprows ?pool, 0, []) = Inr (rws, lpr, j, dlist)"
    and l2: "efold (copy_pending (int n)) [0 .. npend ?pool - 1] (lpr, j) = Inr (lpr', j')"
    and fin: "(if dlist \<noteq> [] then
            ebind (set_flags (int n) dlist) (\<lambda>rowflags.
              Inr (b\<lparr>cpool := ?pool\<lparr>rows := rws, lprows := lpr', nlprows := j\<rparr>,
                        lp := delsetrows (lp b) rowflags,
                        node := (node b)\<lparr>delrow_z := node_z (node b)\<rparr>\<rparr>))
          else Inr (b\<lparr>cpool := ?pool\<lparr>rows := rws, lprows := lpr', nlprows := j\<rparr>\<rparr>)) = Inr b'"
    by (auto simp: delete_slack_rows_from_LP_def Let_def n_def ebind_eq_Inr split: if_splits)
  have inv: "slack_inv ?pool ?slk n (rws, lpr, j, dlist)"
    using slack_loop[OF l1] by simp
  let ?sv = "survivors ?pool ?slk n"
  have I1: "dlist = map int (filter (deleted ?pool ?slk) [0 ..< n])"
    and j: "j = int (length ?sv)"
    and len: "length rws = length (rows ?pool)" "length lpr = length (lprows ?pool)"
    and I2: "\<And>m. m < length ?sv \<Longrightarrow> lpr ! m = lprows ?pool ! (?sv ! m)"
    and I4: "\<And>i. i < n \<Longrightarrow> 0 \<le> lprows ?pool ! i \<and> lprows ?pool ! i < int (length (rows ?pool)) \<and>
            lprow (rows ?pool ! nat (lprows ?pool ! i)) = int i"
    and I5: "\<And>r. r < length (rows ?pool) \<Longrightarrow> rws ! r = (rows ?pool ! r)\<lparr>lprow := moved_lprow ?pool ?slk n r\<rparr>"
    using inv unfolding slack_inv_def by auto
  have cp: "\<And>m. int m < j \<Longrightarrow> lpr' ! m = lpr ! m"
    using copy_pending_loop[OF l2] j by simp
  have pool': "cpool b' = ?pool\<lparr>rows := rws, lprows := lpr', nlprows := j\<rparr>"
    using fin by (auto simp: ebind_eq_Inr split: if_splits)
  have lp': "lp_rows (lp b') = map ((!) (lp_rows (lp b))) ?sv"
  proof (cases "dlist = []")
    case True
    then have "?sv = [0 ..< n]" using I1 by (simp add: survivors_all)
    moreover have "lp b' = lp b" using fin True by auto
    ultimately show ?thesis by (simp add: n_def map_nth)
  next
    case False
    then obtain fl where fl: "set_flags (int n) dlist = Inr fl" and "lp b' = delsetrows (lp b) fl"
      using fin by (auto simp: ebind_eq_Inr)
    then show ?thesis using delsetrows_survivors[OF fl[unfolded I1], of "lp b"] by (simp add: n_def)
  qed
  show "nlprows (cpool b) = int n" by (rule sync)
  show "lp_rows (lp b') = map ((!) (lp_rows (lp b))) ?sv" by (rule lp')
  show "nlprows (cpool b') = int (length ?sv)" using pool' j by simp
  show "length (rows (cpool b')) = length (rows ?pool)" using pool' len by simp
  show "\<forall>r < length (rows ?pool). rows (cpool b') ! r = (rows ?pool ! r)\<lparr>lprow := moved_lprow ?pool ?slk n r\<rparr>"
    using pool' I5 by simp
  show "\<forall>m < length ?sv. lprows (cpool b') ! m = lprows ?pool ! (?sv ! m)"
    using pool' cp I2 j by simp
  show "\<forall>i < n. 0 \<le> lprows ?pool ! i \<and> lprows ?pool ! i < int (length (rows ?pool)) \<and>
            lprow (rows ?pool ! nat (lprows ?pool ! i)) = int i"
    using I4 by blast
qed

lemma moved_lprow_loaded:
  assumes "i < n" "lprows pool ! i = int r" "lprow (rows pool ! r) = int i"
  shows "moved_lprow pool slk n r =
     (if deleted pool slk i then -1 else int (length (survivors pool slk i)))"
  using assms by (simp add: moved_lprow_def Let_def)

lemma moved_lprow_unloaded:
  assumes "lprow (rows pool ! r) < 0"
  shows "moved_lprow pool slk n r = lprow (rows pool ! r)"
  using assms by (simp add: moved_lprow_def Let_def)

lemma three_loaded_run: "delete_slack_rows_from_LP bb_three_loaded = Inr bb_three_loaded_after"
  by code_simp

text \<open>
  Claim C8.  \<open>delete_slack_rows\<close> leaves the LP row set and every pool row status unchanged
  unless the node's objective bound has strictly improved since the last deletion.  When it
  runs, it removes from the LP exactly the loaded rows whose slack exceeds the tolerance or
  that carry the always-discard flag (the LP keeps the surviving rows, in order), sets each
  removed row to "not loaded", and compacts the surviving rows so that each one's recorded
  LP index equals its new position.  Nothing but the \<open>lprow\<close> field of a row header changes,
  and rows that were not loaded are untouched.
\<close>

theorem delete_slack_rows_spec:
  assumes "delete_slack_rows_from_LP b = Inr b'"
  shows "(node_z (node b) \<le> delrow_z (node b) \<longrightarrow> b' = b) \<and>
    (delrow_z (node b) < node_z (node b) \<longrightarrow>
       (let pool = cpool b; n = length (lp_rows (lp b)); sv = survivors pool (slack b) n in
          nlprows pool = int n \<and>
          lp_rows (lp b') = map ((!) (lp_rows (lp b))) sv \<and>
          nlprows (cpool b') = int (length sv) \<and>
          length (rows (cpool b')) = length (rows pool) \<and>
          (\<forall>i < n. deleted pool (slack b) i \<longrightarrow>
             lprow (rows (cpool b') ! nat (lprows pool ! i)) = -1) \<and>
          (\<forall>m < length sv. lprows (cpool b') ! m = lprows pool ! (sv ! m) \<and>
             lprow (rows (cpool b') ! nat (lprows (cpool b') ! m)) = int m) \<and>
          (\<forall>r < length (rows pool).
             (rows (cpool b') ! r)\<lparr>lprow := 0\<rparr> = (rows pool ! r)\<lparr>lprow := 0\<rparr> \<and>
             (lprow (rows pool ! r) < 0 \<longrightarrow> rows (cpool b') ! r = rows pool ! r))))"
proof (intro conjI impI)
  assume "node_z (node b) \<le> delrow_z (node b)"
  then show "b' = b" using assms by (simp add: delete_slack_rows_from_LP_def Let_def)
next
  assume z: "delrow_z (node b) < node_z (node b)"
  define n where "n = length (lp_rows (lp b))"
  let ?pool = "cpool b" and ?slk = "slack b"
  let ?sv = "survivors ?pool ?slk n"
  note R = delete_slack_rows_run[OF assms z, folded n_def]
  have rowi: "\<And>i. i < n \<Longrightarrow> nat (lprows ?pool ! i) < length (rows ?pool) \<and>
      lprow (rows (cpool b') ! nat (lprows ?pool ! i)) =
        (if deleted ?pool ?slk i then -1 else int (length (survivors ?pool ?slk i)))"
  proof -
    fix i assume i: "i < n"
    define r where "r = nat (lprows ?pool ! i)"
    have r: "r < length (rows ?pool)" "lprows ?pool ! i = int r" "lprow (rows ?pool ! r) = int i"
      using R(7) i by (auto simp: r_def)
    have "rows (cpool b') ! r = (rows ?pool ! r)\<lparr>lprow := moved_lprow ?pool ?slk n r\<rparr>"
      using R(5) r by blast
    then show "nat (lprows ?pool ! i) < length (rows ?pool) \<and>
      lprow (rows (cpool b') ! nat (lprows ?pool ! i)) =
        (if deleted ?pool ?slk i then -1 else int (length (survivors ?pool ?slk i)))"
      using moved_lprow_loaded[OF i r(2,3), of ?slk] r(1) by (simp add: r_def)
  qed
  have A: "\<forall>i < n. deleted ?pool ?slk i \<longrightarrow> lprow (rows (cpool b') ! nat (lprows ?pool ! i)) = -1"
    using rowi by simp
  have B: "\<forall>m < length ?sv. lprows (cpool b') ! m = lprows ?pool ! (?sv ! m) \<and>
             lprow (rows (cpool b') ! nat (lprows (cpool b') ! m)) = int m"
  proof (intro allI impI)
    fix m assume m: "m < length ?sv"
    have e: "lprows (cpool b') ! m = lprows ?pool ! (?sv ! m)" using R(6) m by blast
    have "?sv ! m < n" using m by (rule survivors_lt)
    from rowi[OF this] survivors_not_deleted[OF m] survivors_position[OF m]
    show "lprows (cpool b') ! m = lprows ?pool ! (?sv ! m) \<and>
             lprow (rows (cpool b') ! nat (lprows (cpool b') ! m)) = int m"
      using e by simp
  qed
  have C: "\<forall>r < length (rows ?pool).
             (rows (cpool b') ! r)\<lparr>lprow := 0\<rparr> = (rows ?pool ! r)\<lparr>lprow := 0\<rparr> \<and>
             (lprow (rows ?pool ! r) < 0 \<longrightarrow> rows (cpool b') ! r = rows ?pool ! r)"
    using R(5) by (auto simp: moved_lprow_unloaded)
  show "let pool = cpool b; n = length (lp_rows (lp b)); sv = survivors pool (slack b) n in
          nlprows pool = int n \<and>
          lp_rows (lp b') = map ((!) (lp_rows (lp b))) sv \<and>
          nlprows (cpool b') = int (length sv) \<and>
          length (rows (cpool b')) = length (rows pool) \<and>
          (\<forall>i < n. deleted pool (slack b) i \<longrightarrow>
             lprow (rows (cpool b') ! nat (lprows pool ! i)) = -1) \<and>
          (\<forall>m < length sv. lprows (cpool b') ! m = lprows pool ! (sv ! m) \<and>
             lprow (rows (cpool b') ! nat (lprows (cpool b') ! m)) = int m) \<and>
          (\<forall>r < length (rows pool).
             (rows (cpool b') ! r)\<lparr>lprow := 0\<rparr> = (rows pool ! r)\<lparr>lprow := 0\<rparr> \<and>
             (lprow (rows pool ! r) < 0 \<longrightarrow> rows (cpool b') ! r = rows pool ! r))"
    unfolding Let_def n_def[symmetric] using R(1-4) A B C by blast
qed

theorem delete_slack_rows_spec_witness:
  "delete_slack_rows_from_LP bb_three_loaded = Inr bb_three_loaded_after \<and>
   delrow_z (node bb_three_loaded) < node_z (node bb_three_loaded) \<and>
   survivors (cpool bb_three_loaded) (slack bb_three_loaded) 3 = [1] \<and>
   lp_rows (lp bb_three_loaded_after) = [lp_rows (lp bb_three_loaded) ! 1] \<and>
   nlprows (cpool bb_three_loaded_after) = 1 \<and>
   lprow (rows (cpool bb_three_loaded_after) ! 1) = 0 \<and>
   delete_slack_rows_from_LP bb_three_loaded_after = Inr bb_three_loaded_after \<and>
   node_z (node bb_three_loaded_after) \<le> delrow_z (node bb_three_loaded_after)"
proof -
  have r: "delete_slack_rows_from_LP bb_three_loaded = Inr bb_three_loaded_after"
    by (rule three_loaded_run)
  have z: "delrow_z (node bb_three_loaded) < node_z (node bb_three_loaded)"
    by (simp add: bb_three_loaded_def)
  have sv: "survivors (cpool bb_three_loaded) (slack bb_three_loaded) 3 = [1]"
    by code_simp
  have n: "length (lp_rows (lp bb_three_loaded)) = 3" by (simp add: bb_three_loaded_def)
  have r2: "delete_slack_rows_from_LP bb_three_loaded_after = Inr bb_three_loaded_after"
    by (simp add: delete_slack_rows_from_LP_def bb_three_loaded_after_def Let_def)
  have z2: "node_z (node bb_three_loaded_after) \<le> delrow_z (node bb_three_loaded_after)"
    by (simp add: bb_three_loaded_after_def)
  from delete_slack_rows_spec[OF r] z n sv
  have "lp_rows (lp bb_three_loaded_after) = [lp_rows (lp bb_three_loaded) ! Suc 0] \<and>
     nlprows (cpool bb_three_loaded_after) = 1 \<and>
     lprow (rows (cpool bb_three_loaded_after) ! nat (lprows (cpool bb_three_loaded_after) ! 0)) = 0"
    by (auto simp: Let_def)
  moreover have "lprows (cpool bb_three_loaded_after) ! 0 = 1"
    by (simp add: bb_three_loaded_after_def)
  ultimately show ?thesis using r z sv r2 z2 delete_slack_rows_spec[OF r2] by simp
qed

section \<open>Saving and restoring a node's basis\<close>

lemma loaded_idx_facts:
  assumes "lp_index_ok pool"
  defines "ld \<equiv> loaded_idx (rows pool)"
  defines "f \<equiv> (\<lambda>r. nat (lprow (rows pool ! r)))"
  shows "distinct (map f ld)" and "set (map f ld) = {0 ..< nat (nlprows pool)}"
    and "length ld = nat (nlprows pool)"
proof -
  have A: "\<And>r. r < length (rows pool) \<Longrightarrow> 0 \<le> lprow (rows pool ! r) \<Longrightarrow>
        lprow (rows pool ! r) < nlprows pool \<and> lprows pool ! nat (lprow (rows pool ! r)) = int r"
    using assms(1) by (simp add: lp_index_ok_def)
  have B: "\<And>i. i < nat (nlprows pool) \<Longrightarrow> 0 \<le> lprows pool ! i \<and> lprows pool ! i < int (length (rows pool)) \<and>
        lprow (rows pool ! nat (lprows pool ! i)) = int i"
    using assms(1) by (simp add: lp_index_ok_def)
  have mem: "\<And>r. r \<in> set ld \<longleftrightarrow> r < length (rows pool) \<and> 0 \<le> lprow (rows pool ! r)"
    by (auto simp: ld_def loaded_idx_def)
  have inj: "inj_on f (set ld)"
  proof (rule inj_onI)
    fix r r' assume r: "r \<in> set ld" "r' \<in> set ld" and e: "f r = f r'"
    have "int r = lprows pool ! f r" "int r' = lprows pool ! f r'"
      using A[of r] A[of r'] r mem by (simp_all add: f_def)
    then show "r = r'" using e by simp
  qed
  have dl: "distinct ld" by (simp add: ld_def loaded_idx_def)
  show d: "distinct (map f ld)" using dl inj by (simp add: distinct_map)
  show s: "set (map f ld) = {0 ..< nat (nlprows pool)}"
  proof (intro set_eqI iffI)
    fix i assume "i \<in> set (map f ld)"
    then obtain r where "r \<in> set ld" "i = f r" by auto
    then have "r < length (rows pool)" "0 \<le> lprow (rows pool ! r)" "i = nat (lprow (rows pool ! r))"
      using mem by (simp_all add: f_def)
    then show "i \<in> {0 ..< nat (nlprows pool)}" using A[of r] by simp
  next
    fix i assume "i \<in> {0 ..< nat (nlprows pool)}"
    then have i: "i < nat (nlprows pool)" by simp
    define r where "r = nat (lprows pool ! i)"
    have "r < length (rows pool)" "lprow (rows pool ! r) = int i" using B[OF i] by (auto simp: r_def)
    then have "r \<in> set ld" "f r = i" using mem by (simp_all add: f_def)
    then show "i \<in> set (map f ld)" by force
  qed
  have "card (set (map f ld)) = length (map f ld)" using d by (rule distinct_card)
  then show "length ld = nat (nlprows pool)" unfolding s by simp
qed

lemma loaded_idx_Suc:
  "k < length rws \<Longrightarrow> filter (\<lambda>r. 0 \<le> lprow (rws ! r)) [0 ..< Suc k] =
     filter (\<lambda>r. 0 \<le> lprow (rws ! r)) [0 ..< k] @ (if 0 \<le> lprow (rws ! k) then [k] else [])"
  by simp

lemma filter_upt_length_mono:
  "k \<le> n \<Longrightarrow> length (filter P [0 ..< k]) \<le> length (filter P [0 ..< n])"
proof -
  assume "k \<le> n"
  then have "[0 ..< n] = [0 ..< k] @ [k ..< n]" by (metis le0 upt_add_eq_append le_add_diff_inverse)
  then show ?thesis by simp
qed

lemma save_loop:
  assumes n: "length (loaded_idx rws0) = nat n" "0 \<le> n"
  shows "efold (save_step n) [0 .. int (length rws0) - 1] (rws0, [], []) =
     Inr (lock_rows rws0, map (\<lambda>r. uid (rws0 ! r)) (loaded_idx rws0),
          map (\<lambda>r. lprow (rws0 ! r)) (loaded_idx rws0))"
proof -
  let ?ld = "\<lambda>k. filter (\<lambda>r. 0 \<le> lprow (rws0 ! r)) [0 ..< k]"
  define S where "S = (\<lambda>k (st :: rcon list \<times> int list \<times> int list).
     st = (map (\<lambda>r. if r < k \<and> 0 \<le> lprow (rws0 ! r) then (rws0 ! r)\<lparr>refc := refc (rws0 ! r) + 1\<rparr> else rws0 ! r)
               [0 ..< length rws0],
           map (\<lambda>r. uid (rws0 ! r)) (?ld k), map (\<lambda>r. lprow (rws0 ! r)) (?ld k)))"
  have "\<exists>t. efold (save_step n) (map int [0 ..< length rws0]) (rws0, [], []) = Inr t \<and> S (length rws0) t"
  proof (rule efold_upt_total[where P = S])
    show "S 0 (rws0, [], [])" by (simp add: S_def map_nth)
  next
    fix k u assume k: "k < length rws0" and Sk: "S k u"
    let ?rws = "map (\<lambda>r. if r < k \<and> 0 \<le> lprow (rws0 ! r) then (rws0 ! r)\<lparr>refc := refc (rws0 ! r) + 1\<rparr> else rws0 ! r)
               [0 ..< length rws0]"
    have rk: "?rws ! k = rws0 ! k" using k by simp
    show "\<exists>v. save_step n (int k) u = Inr v \<and> S (Suc k) v"
    proof (cases "0 \<le> lprow (rws0 ! k)")
      case False
      have "\<And>r. (r < Suc k \<and> 0 \<le> lprow (rws0 ! r)) = (r < k \<and> 0 \<le> lprow (rws0 ! r))"
        using False by (auto simp: less_Suc_eq)
      then show ?thesis using Sk k False rk
        by (simp add: S_def save_step_def nth_e_def)
    next
      case True
      have "length (?ld (Suc k)) \<le> length (?ld (length rws0))"
        using k by (intro filter_upt_length_mono) simp
      then have lt: "int (length (?ld k)) < n" using True n k by (simp add: loaded_idx_def)
      have upd: "?rws[k := (rws0 ! k)\<lparr>refc := refc (rws0 ! k) + 1\<rparr>] =
         map (\<lambda>r. if r < Suc k \<and> 0 \<le> lprow (rws0 ! r) then (rws0 ! r)\<lparr>refc := refc (rws0 ! r) + 1\<rparr> else rws0 ! r)
               [0 ..< length rws0]"
        using True k by (intro nth_equalityI) (auto simp: nth_list_update less_Suc_eq)
      show ?thesis using Sk k True rk lt upd
        by (simp add: S_def save_step_def nth_e_def)
    qed
  qed
  moreover have "map (\<lambda>r. if r < length rws0 \<and> 0 \<le> lprow (rws0 ! r) then (rws0 ! r)\<lparr>refc := refc (rws0 ! r) + 1\<rparr> else rws0 ! r)
               [0 ..< length rws0] = lock_rows rws0"
    by (intro nth_equalityI) (auto simp: lock_rows_def)
  ultimately show ?thesis by (auto simp: S_def upto_as_upt loaded_idx_def)
qed

lemma save_node_basis_ok:
  assumes "lp_index_ok (cpool b)" "int (length (lp_rows (lp b))) = nlprows (cpool b)"
  shows "save_node_basis nodep b =
     Inr (nodep\<lparr>n_uids := nlprows (cpool b),
                 bc_uids := Some (map (\<lambda>r. uid (rows (cpool b) ! r)) (loaded_idx (rows (cpool b)))),
                 bc_row := Some (map (\<lambda>r. lprow (rows (cpool b) ! r)) (loaded_idx (rows (cpool b)))),
                 rstat := Some (lp_rstat (lp b)), cstat := Some (lp_cstat (lp b))\<rparr>,
          b\<lparr>cpool := (cpool b)\<lparr>rows := lock_rows (rows (cpool b))\<rparr>\<rparr>)"
proof -
  have n: "length (loaded_idx (rows (cpool b))) = nat (nlprows (cpool b))" "0 \<le> nlprows (cpool b)"
    using loaded_idx_facts(3)[OF assms(1)] assms(1) by (simp_all add: lp_index_ok_def)
  show ?thesis
    using assms(2) n by (simp add: save_node_basis_def Let_def nrows_def save_loop[OF n])
qed

lemma unload_loop:
  assumes ok: "lp_index_ok pool" and np: "list_all (\<lambda>rc. -1 \<le> lprow rc) (rows pool)"
  shows "efold (unload_step (lprows pool)) [0 .. nlprows pool - 1] (rows pool) =
     Inr (map (\<lambda>rc. rc\<lparr>lprow := -1\<rparr>) (rows pool))"
proof -
  let ?rows = "rows pool" and ?lpr = "lprows pool"
  define n where "n = nat (nlprows pool)"
  have A: "\<And>r. r < length ?rows \<Longrightarrow> 0 \<le> lprow (?rows ! r) \<Longrightarrow>
        lprow (?rows ! r) < nlprows pool \<and> ?lpr ! nat (lprow (?rows ! r)) = int r"
    using ok by (simp add: lp_index_ok_def)
  have B: "\<And>i. i < n \<Longrightarrow> 0 \<le> ?lpr ! i \<and> ?lpr ! i < int (length ?rows) \<and>
        lprow (?rows ! nat (?lpr ! i)) = int i"
    using ok by (simp add: lp_index_ok_def n_def)
  have nl: "n \<le> length ?lpr" "0 \<le> nlprows pool" using ok by (auto simp: lp_index_ok_def n_def)
  define U where "U = (\<lambda>k (rws :: rcon list).
     rws = map (\<lambda>r. if 0 \<le> lprow (?rows ! r) \<and> lprow (?rows ! r) < int k then (?rows ! r)\<lparr>lprow := -1\<rparr>
                    else ?rows ! r) [0 ..< length ?rows])"
  have "\<exists>t. efold (unload_step ?lpr) (map int [0 ..< n]) ?rows = Inr t \<and> U n t"
  proof (rule efold_upt_total[where P = U])
    show "U 0 ?rows" unfolding U_def by (intro nth_equalityI) auto
  next
    fix k u assume k: "k < n" and Uk: "U k u"
    define row where "row = nat (?lpr ! k)"
    have row: "0 \<le> ?lpr ! k" "row < length ?rows" "lprow (?rows ! row) = int k" "int row = ?lpr ! k"
      using B[OF k] by (auto simp: row_def)
    have lu: "length u = length ?rows" using Uk by (simp add: U_def)
    have urow: "u ! row = ?rows ! row" using Uk row by (simp add: U_def)
    have other: "lprow (?rows ! r) \<noteq> int k" if "r < length ?rows" "r \<noteq> row" for r
    proof
      assume e: "lprow (?rows ! r) = int k"
      then have "?lpr ! nat (lprow (?rows ! r)) = int r" using A[OF that(1)] by simp
      then show False using e row(4) that(2) by simp
    qed
    have "u[row := (u ! row)\<lparr>lprow := -1\<rparr>] =
       map (\<lambda>r. if 0 \<le> lprow (?rows ! r) \<and> lprow (?rows ! r) < int (Suc k) then (?rows ! r)\<lparr>lprow := -1\<rparr>
                    else ?rows ! r) [0 ..< length ?rows]"
    proof (intro nth_equalityI)
      show "length (u[row := (u ! row)\<lparr>lprow := -1\<rparr>]) = length (map (\<lambda>r. if 0 \<le> lprow (?rows ! r) \<and> lprow (?rows ! r) < int (Suc k) then (?rows ! r)\<lparr>lprow := -1\<rparr>
                    else ?rows ! r) [0 ..< length ?rows])" using lu by simp
    next
      fix r assume "r < length (u[row := (u ! row)\<lparr>lprow := -1\<rparr>])"
      then have r: "r < length ?rows" using lu by simp
      show "u[row := (u ! row)\<lparr>lprow := -1\<rparr>] ! r = map (\<lambda>r. if 0 \<le> lprow (?rows ! r) \<and> lprow (?rows ! r) < int (Suc k) then (?rows ! r)\<lparr>lprow := -1\<rparr>
                    else ?rows ! r) [0 ..< length ?rows] ! r"
      proof (cases "r = row")
        case True
        then show ?thesis using row lu urow by simp
      next
        case False
        have "(lprow (?rows ! r) < int (Suc k)) = (lprow (?rows ! r) < int k)"
          using other[OF r False] by auto
        then show ?thesis using False r lu Uk by (simp add: U_def)
      qed
    qed
    then have "U (Suc k) (u[row := (u ! row)\<lparr>lprow := -1\<rparr>])" by (simp add: U_def)
    moreover have "unload_step ?lpr (int k) u = Inr (u[row := (u ! row)\<lparr>lprow := -1\<rparr>])"
    proof -
      have "nth_e ?lpr (int k) = Inr (?lpr ! k)" using k nl by (simp add: nth_e_def)
      moreover have "\<not> ?lpr ! k < 0" "\<not> int (length u) \<le> ?lpr ! k" using B[OF k] lu by auto
      ultimately show ?thesis by (simp add: unload_step_def row_def)
    qed
    ultimately show "\<exists>v. unload_step ?lpr (int k) u = Inr v \<and> U (Suc k) v" by blast
  qed
  moreover have "map (\<lambda>r. if 0 \<le> lprow (?rows ! r) \<and> lprow (?rows ! r) < int n then (?rows ! r)\<lparr>lprow := -1\<rparr>
                    else ?rows ! r) [0 ..< length ?rows] = map (\<lambda>rc. rc\<lparr>lprow := -1\<rparr>) ?rows"
  proof (intro nth_equalityI)
    show "length (map (\<lambda>r. if 0 \<le> lprow (?rows ! r) \<and> lprow (?rows ! r) < int n then (?rows ! r)\<lparr>lprow := -1\<rparr>
                    else ?rows ! r) [0 ..< length ?rows]) = length (map (\<lambda>rc. rc\<lparr>lprow := -1\<rparr>) ?rows)" by simp
  next
    fix r assume "r < length (map (\<lambda>r. if 0 \<le> lprow (?rows ! r) \<and> lprow (?rows ! r) < int n then (?rows ! r)\<lparr>lprow := -1\<rparr>
                    else ?rows ! r) [0 ..< length ?rows])"
    then have r: "r < length ?rows" by simp
    have "-1 \<le> lprow (?rows ! r)" using np r by (simp add: list_all_length)
    then have "0 \<le> lprow (?rows ! r) \<or> lprow (?rows ! r) = -1" by linarith
    then show "map (\<lambda>r. if 0 \<le> lprow (?rows ! r) \<and> lprow (?rows ! r) < int n then (?rows ! r)\<lparr>lprow := -1\<rparr>
                    else ?rows ! r) [0 ..< length ?rows] ! r = map (\<lambda>rc. rc\<lparr>lprow := -1\<rparr>) ?rows ! r"
      using r A[OF r] nl by (auto simp: n_def)
  qed
  ultimately show ?thesis using nl by (auto simp: U_def upto_nat n_def)
qed

lemma clear_loop:
  assumes "0 \<le> nu" "nu \<le> int (length (lpr :: int list))"
  shows "efold (\<lambda>i l. upd_e l i (-1)) [0 .. nu - 1] lpr = Inr (replicate (nat nu) (-1) @ drop (nat nu) lpr)"
proof -
  define C where "C = (\<lambda>k (l :: int list). l = replicate k (-1) @ drop k lpr)"
  have "\<exists>t. efold (\<lambda>i l. upd_e l i (-1)) (map int [0 ..< nat nu]) lpr = Inr t \<and> C (nat nu) t"
  proof (rule efold_upt_total[where P = C])
    show "C 0 lpr" by (simp add: C_def)
  next
    fix k u assume k: "k < nat nu" and "C k u"
    then have u: "u = replicate k (-1) @ drop k lpr" by (simp add: C_def)
    have kl: "k < length lpr" using k assms by simp
    have "u[k := -1] = replicate (Suc k) (-1) @ drop (Suc k) lpr"
    proof (intro nth_equalityI)
      show "length (u[k := -1]) = length (replicate (Suc k) (-1) @ drop (Suc k) lpr)"
        unfolding u using kl by simp
    next
      fix i assume "i < length (u[k := -1])"
      then have i: "i < length lpr" unfolding u using kl by simp
      consider "i < k" | "i = k" | "k < i" by linarith
      then show "u[k := -1] ! i = (replicate (Suc k) (-1) @ drop (Suc k) lpr) ! i"
      proof cases
        case 1
        then show ?thesis unfolding u using kl
          by (simp add: nth_append del: replicate_Suc)
      next
        case 2
        then show ?thesis unfolding u using kl
          by (simp add: nth_append del: replicate_Suc)
      next
        case 3
        then show ?thesis unfolding u using kl i
          by (simp add: nth_append del: replicate_Suc)
      qed
    qed
    then show "\<exists>v. upd_e u (int k) (-1) = Inr v \<and> C (Suc k) v"
      using kl u by (simp add: upd_e_def C_def)
  qed
  then show ?thesis by (auto simp: C_def upto_nat)
qed

lemma serialize_row_stored:
  assumes "row_stored ncols rc"
  shows "serialize_row ncols (coefs rc) = Inr (coefs rc)"
proof -
  have "row_shape cs \<Longrightarrow> known_op cs \<Longrightarrow> list_all (\<lambda>p. var p - RC_VAR_BASE < ncols) (butlast cs) \<Longrightarrow>
    serialize_row ncols cs = Inr cs" for cs
  proof (induction cs)
    case Nil
    then show ?case by (simp add: row_shape_def)
  next
    case (Cons c cs)
    show ?case
    proof (cases "cs = []")
      case True
      then show ?thesis using Cons.prems by (auto simp: row_shape_def known_op_def)
    next
      case False
      then have "row_shape cs" "known_op cs" "list_all (\<lambda>p. var p - RC_VAR_BASE < ncols) (butlast cs)"
        "\<not> var c < RC_VAR_BASE" "\<not> ncols \<le> var c - RC_VAR_BASE"
        using Cons.prems by (auto simp: row_shape_def known_op_def)
      then show ?thesis using Cons.IH by simp
    qed
  qed
  then show ?thesis using assms by (simp add: row_stored_def)
qed

lemma find_uid_found:
  assumes "pos \<le> p" "p < length rws" "uid (rws ! p) = u" "\<And>q. pos \<le> q \<Longrightarrow> q < p \<Longrightarrow> uid (rws ! q) \<noteq> u"
  shows "find_uid rws pos u = Inr p"
  using assms
proof (induction "p - pos" arbitrary: pos)
  case 0
  then have "pos = p" by simp
  then show ?case using 0 by (subst find_uid.simps) simp
next
  case (Suc d)
  then have lt: "pos < p" by simp
  then have "uid (rws ! pos) \<noteq> u" using Suc.prems(4)[of pos] by simp
  moreover have "find_uid rws (Suc pos) u = Inr p"
    using Suc.hyps(1)[of "Suc pos"] Suc.hyps(2) Suc.prems lt by simp
  ultimately show ?case using lt Suc.prems(2) by (subst find_uid.simps) simp
qed

lemma sorted_wrt_less_nth:
  "sorted_wrt (<) (xs :: nat list) \<Longrightarrow> i < j \<Longrightarrow> j < length xs \<Longrightarrow> xs ! i < xs ! j"
  by (simp add: sorted_wrt_iff_nth_less)

lemma replay_loop:
  fixes rws1 :: "rcon list" and ld :: "nat list" and brow :: "int list" and lpr1 :: "int list"
  assumes srt: "sorted_wrt (<) ld" and ldr: "\<And>r. r \<in> set ld \<Longrightarrow> r < length rws1"
    and du: "distinct (map uid rws1)" and m1: "\<And>r. r < length rws1 \<Longrightarrow> lprow (rws1 ! r) = -1"
    and lb: "length brow = length ld" and db: "distinct brow"
    and rb: "\<And>j. j \<in> set brow \<Longrightarrow> 0 \<le> j \<and> j < int (length ld)"
    and ll: "length ld \<le> length lpr1" and c1: "\<And>j. j < length ld \<Longrightarrow> lpr1 ! j = -1"
  shows "\<exists>rws2 lpr2 pos.
     efold (replay_step (int (length ld)) (map (\<lambda>r. uid (rws1 ! r)) ld) brow) [0 .. int (length ld) - 1]
       (rws1, lpr1, 0) = Inr (rws2, lpr2, pos) \<and>
     length rws2 = length rws1 \<and>
     (\<forall>r < length rws1. rws2 ! r =
        (if r \<in> set ld then (rws1 ! r)\<lparr>refc := refc (rws1 ! r) - 1, lprow := -2\<rparr> else rws1 ! r)) \<and>
     length lpr2 = length lpr1 \<and>
     (\<forall>m < length ld. lpr2 ! nat (brow ! m) = int (ld ! m)) \<and>
     (\<forall>j. length ld \<le> j \<and> j < length lpr1 \<longrightarrow> lpr2 ! j = lpr1 ! j)"
proof -
  let ?n = "length ld"
  let ?uids = "map (\<lambda>r. uid (rws1 ! r)) ld"
  define R where "R = (\<lambda>k (st :: rcon list \<times> int list \<times> nat).
     case st of (rws, lpr, pos) \<Rightarrow>
       length rws = length rws1 \<and>
       (\<forall>r < length rws1. rws ! r =
          (if r \<in> set (take k ld) then (rws1 ! r)\<lparr>refc := refc (rws1 ! r) - 1, lprow := -2\<rparr> else rws1 ! r)) \<and>
       length lpr = length lpr1 \<and>
       (\<forall>m < k. lpr ! nat (brow ! m) = int (ld ! m)) \<and>
       (\<forall>j < length lpr1. int j \<notin> set (take k brow) \<longrightarrow> lpr ! j = lpr1 ! j) \<and>
       (k = 0 \<longrightarrow> pos = 0) \<and> (0 < k \<longrightarrow> pos = ld ! (k - 1)))"
  have dl: "distinct ld" using srt by (simp add: strict_sorted_iff)
  have "\<exists>t. efold (replay_step (int ?n) ?uids brow) (map int [0 ..< ?n]) (rws1, lpr1, 0) = Inr t \<and> R ?n t"
  proof (rule efold_upt_total[where P = R])
    show "R 0 (rws1, lpr1, 0)" by (simp add: R_def)
  next
    fix k st assume k: "k < ?n" and Rk: "R k st"
    obtain rws lpr pos where st: "st = (rws, lpr, pos)" by (cases st) auto
    have I1: "length rws = length rws1"
      and I2: "\<And>r. r < length rws1 \<Longrightarrow> rws ! r =
          (if r \<in> set (take k ld) then (rws1 ! r)\<lparr>refc := refc (rws1 ! r) - 1, lprow := -2\<rparr> else rws1 ! r)"
      and I3: "length lpr = length lpr1"
      and I4: "\<And>m. m < k \<Longrightarrow> lpr ! nat (brow ! m) = int (ld ! m)"
      and I5: "\<And>j. j < length lpr1 \<Longrightarrow> int j \<notin> set (take k brow) \<Longrightarrow> lpr ! j = lpr1 ! j"
      and I6: "k = 0 \<Longrightarrow> pos = 0" "0 < k \<Longrightarrow> pos = ld ! (k - 1)"
      using Rk unfolding R_def st by auto
    define p where "p = ld ! k"
    define j where "j = brow ! k"
    have p: "p < length rws1" "p \<in> set ld" using k ldr by (auto simp: p_def)
    have pn: "p \<notin> set (take k ld)"
      using dl k by (auto simp: p_def in_set_conv_nth distinct_conv_nth)
    have uidr: "\<And>q. q < length rws1 \<Longrightarrow> uid (rws ! q) = uid (rws1 ! q)" using I2 by simp
    have posp: "pos \<le> p"
    proof (cases "k = 0")
      case True then show ?thesis using I6 by simp
    next
      case False
      then have "ld ! (k - 1) < ld ! k" using srt k by (intro sorted_wrt_less_nth) auto
      then show ?thesis using I6 False by (simp add: p_def)
    qed
    have uniq: "\<And>q. q < length rws1 \<Longrightarrow> q \<noteq> p \<Longrightarrow> uid (rws1 ! q) \<noteq> uid (rws1 ! p)"
      using du p(1) by (metis distinct_conv_nth length_map nth_map)
    have fu: "find_uid rws pos (uid (rws1 ! p)) = Inr p"
    proof (rule find_uid_found[OF posp])
      show "p < length rws" using p I1 by simp
      show "uid (rws ! p) = uid (rws1 ! p)" using uidr p by simp
      fix q assume "pos \<le> q" "q < p"
      then show "uid (rws ! q) \<noteq> uid (rws1 ! p)" using uidr[of q] uniq[of q] p by simp
    qed
    have rp: "rws ! p = rws1 ! p" using I2[OF p(1)] pn by simp
    have jr: "0 \<le> j" "j < int ?n" using rb[of j] k lb by (auto simp: j_def)
    have jn: "j \<notin> set (take k brow)"
      using db k lb by (auto simp: j_def in_set_conv_nth distinct_conv_nth)
    have cur: "lpr ! nat j = -1" using I5[of "nat j"] jn jr ll c1[of "nat j"] by simp
    define rws' where "rws' = rws[p := (rws ! p)\<lparr>refc := refc (rws ! p) - 1, lprow := -2\<rparr>]"
    define lpr' where "lpr' = lpr[nat j := int p]"
    have step: "replay_step (int ?n) ?uids brow (int k) st = Inr (rws', lpr', p)"
      using k lb fu rp m1[OF p(1)] jr cur ll I3
      by (simp add: replay_step_def st nth_e_def Let_def p_def[symmetric] j_def[symmetric]
          rws'_def lpr'_def)
    have tk: "take (Suc k) ld = take k ld @ [p]" "take (Suc k) brow = take k brow @ [j]"
      using k lb by (simp_all add: take_Suc_conv_app_nth p_def j_def)
    have R1: "\<forall>r < length rws1. rws' ! r =
          (if r \<in> set (take (Suc k) ld) then (rws1 ! r)\<lparr>refc := refc (rws1 ! r) - 1, lprow := -2\<rparr> else rws1 ! r)"
      using I2 I1 rp p(1) by (auto simp: rws'_def tk nth_list_update)
    have R2: "\<forall>m < Suc k. lpr' ! nat (brow ! m) = int (ld ! m)"
    proof (intro allI impI)
      fix m assume "m < Suc k"
      then consider "m < k" | "m = k" by linarith
      then show "lpr' ! nat (brow ! m) = int (ld ! m)"
      proof cases
        case 1
        then have "brow ! m \<in> set (take k brow)" using k lb by (auto simp: in_set_conv_nth)
        then have "brow ! m \<noteq> j" using jn by auto
        moreover have "0 \<le> brow ! m" using rb[of "brow ! m"] 1 k lb by simp
        ultimately have "nat (brow ! m) \<noteq> nat j" using jr by simp
        then show ?thesis using I4[OF 1] by (simp add: lpr'_def)
      next
        case 2
        then show ?thesis using jr ll I3 by (simp add: lpr'_def j_def p_def)
      qed
    qed
    have R3: "\<forall>i < length lpr1. int i \<notin> set (take (Suc k) brow) \<longrightarrow> lpr' ! i = lpr1 ! i"
      using I5 jr by (auto simp: tk lpr'_def nth_list_update)
    have "R (Suc k) (rws', lpr', p)"
      unfolding R_def using R1 R2 R3 I1 I3 by (simp add: rws'_def lpr'_def p_def)
    then show "\<exists>v. replay_step (int ?n) ?uids brow (int k) st = Inr v \<and> R (Suc k) v"
      using step by blast
  qed
  then obtain rws2 lpr2 pos where
    e: "efold (replay_step (int ?n) ?uids brow) (map int [0 ..< ?n]) (rws1, lpr1, 0) = Inr (rws2, lpr2, pos)"
    and Rn: "R ?n (rws2, lpr2, pos)" by (metis prod_cases3)
  have fin: "\<forall>j. ?n \<le> j \<and> j < length lpr1 \<longrightarrow> lpr2 ! j = lpr1 ! j"
  proof (intro allI impI)
    fix j assume j: "?n \<le> j \<and> j < length lpr1"
    have "int j \<notin> set brow" using rb[of "int j"] j by auto
    then show "lpr2 ! j = lpr1 ! j" using Rn j lb unfolding R_def by simp
  qed
  show ?thesis
    using e Rn fin lb unfolding R_def upto_as_upt by auto
qed

lemma add_pending_ok:
  fixes b :: bbinfo
  defines "pool \<equiv> cpool b"
  defines "n1 \<equiv> nat (nlprows (cpool b))" and "np \<equiv> nat (npend (cpool b))"
  defines "q \<equiv> map (\<lambda>k. nat (lprows (cpool b) ! (nat (nlprows (cpool b)) + k))) [0 ..< nat (npend (cpool b))]"
  assumes sync: "int (length (lp_rows (lp b))) = nlprows pool"
    and nn: "0 \<le> npend pool" and bound: "n1 + np \<le> length (lprows pool)"
    and pend: "\<And>k. k < np \<Longrightarrow> 0 \<le> lprows pool ! (n1 + k) \<and> lprows pool ! (n1 + k) < int (length (rows pool)) \<and>
         lprow (rows pool ! (q ! k)) = -2 \<and> row_stored (lp_ncols (lp b)) (rows pool ! (q ! k))"
    and dq: "distinct q"
  shows "\<exists>rws new.
     add_pending_rows_to_LP b =
       Inr (b\<lparr>cpool := pool\<lparr>rows := rws, nlprows := nlprows pool + npend pool, npend := 0,
                       hwmrow := (if np = 0 then hwmrow pool else max (nlprows pool + npend pool) (hwmrow pool)),
                       hwmnz := (if np = 0 then hwmnz pool
                                 else max (lp_num_nz (lp b) + (\<Sum>r\<leftarrow>q. len (rows pool ! r))) (hwmnz pool))\<rparr>,
              lp := (lp b)\<lparr>lp_rows := lp_rows (lp b) @ map (\<lambda>r. coefs (rows pool ! r)) q\<rparr>\<rparr>) \<and>
     length rws = length (rows pool) \<and>
     (\<forall>k < np. rws ! (q ! k) = (rows pool ! (q ! k))\<lparr>lprow := int (n1 + k)\<rparr>) \<and>
     (\<forall>r < length (rows pool). r \<notin> set q \<longrightarrow> rws ! r = rows pool ! r)"
proof -
  have n1: "0 \<le> nlprows pool" "int n1 = nlprows pool" using sync by (auto simp: n1_def pool_def)
  have lq: "length q = np" by (simp add: q_def np_def)
  have qk: "\<And>k. k < np \<Longrightarrow> q ! k = nat (lprows pool ! (n1 + k))"
    by (simp add: q_def np_def n1_def pool_def)
  have qr: "\<And>k. k < np \<Longrightarrow> q ! k < length (rows pool)" using pend qk by (simp add: nat_less_iff)
  show ?thesis
  proof (cases "np = 0")
    case True
    then have "npend pool = 0" using nn by (simp add: np_def pool_def)
    moreover have "q = []" using True lq by simp
    moreover have "b\<lparr>cpool := pool\<lparr>rows := rows pool, nlprows := nlprows pool, npend := 0,
         hwmrow := hwmrow pool, hwmnz := hwmnz pool\<rparr>, lp := (lp b)\<lparr>lp_rows := lp_rows (lp b)\<rparr>\<rparr> = b"
      using \<open>npend pool = 0\<close> by (simp add: pool_def)
    ultimately show ?thesis using sync True
      by (intro exI[of _ "rows pool"]) (simp add: add_pending_rows_to_LP_def Let_def pool_def[symmetric])
  next
    case False
    then have npos: "0 < npend pool" "int np = npend pool" using nn by (auto simp: np_def pool_def)
    have range: "[nlprows pool .. nlprows pool + npend pool - 1] = map (\<lambda>k. nlprows pool + int k) [0 ..< np]"
      using upto_shift[of "nlprows pool" np] npos by simp
    define A where "A = (\<lambda>k (st :: rcon list \<times> int).
       case st of (rws, nc) \<Rightarrow> length rws = length (rows pool) \<and>
         nc = (\<Sum>r\<leftarrow>take k q. len (rows pool ! r)) \<and>
         (\<forall>m < k. rws ! (q ! m) = (rows pool ! (q ! m))\<lparr>lprow := int (n1 + m)\<rparr>) \<and>
         (\<forall>r < length (rows pool). r \<notin> set (take k q) \<longrightarrow> rws ! r = rows pool ! r))"
    have "\<exists>t. efold (assign_lprow (lprows pool)) (map (\<lambda>k. nlprows pool + int k) [0 ..< np]) (rows pool, 0) = Inr t
         \<and> A np t"
    proof (rule efold_map_total[where P = A])
      show "A 0 (rows pool, 0)" by (simp add: A_def)
    next
      fix k st assume k: "k < np" and Ak: "A k st"
      obtain rws nc where st: "st = (rws, nc)" by (cases st) auto
      have I1: "length rws = length (rows pool)"
        and I2: "nc = (\<Sum>r\<leftarrow>take k q. len (rows pool ! r))"
        and I3: "\<And>m. m < k \<Longrightarrow> rws ! (q ! m) = (rows pool ! (q ! m))\<lparr>lprow := int (n1 + m)\<rparr>"
        and I4: "\<And>r. r < length (rows pool) \<Longrightarrow> r \<notin> set (take k q) \<Longrightarrow> rws ! r = rows pool ! r"
        using Ak unfolding A_def st by auto
      have qn: "q ! k \<notin> set (take k q)"
        using dq k lq by (auto simp: in_set_conv_nth distinct_conv_nth)
      have rq: "rws ! (q ! k) = rows pool ! (q ! k)" using I4[OF qr[OF k] qn] .
      have P: "0 \<le> lprows pool ! (n1 + k)" "lprows pool ! (n1 + k) < int (length (rows pool))"
        "lprow (rows pool ! (q ! k)) = -2" using pend[OF k] by auto
      have idx: "nat (nlprows pool + int k) = n1 + k" "0 \<le> nlprows pool + int k"
        "nlprows pool + int k < int (length (lprows pool))"
        using n1 k bound by auto
      define rws' where "rws' = rws[q ! k := (rws ! (q ! k))\<lparr>lprow := nlprows pool + int k\<rparr>]"
      have step: "assign_lprow (lprows pool) (nlprows pool + int k) st = Inr (rws', nc + len (rws ! (q ! k)))"
        using idx P rq I1 qk[OF k]
        by (simp add: assign_lprow_def st nth_e_def rws'_def)
      have tk: "take (Suc k) q = take k q @ [q ! k]" using k lq by (simp add: take_Suc_conv_app_nth)
      have A3: "\<forall>m < Suc k. rws' ! (q ! m) = (rows pool ! (q ! m))\<lparr>lprow := int (n1 + m)\<rparr>"
      proof (intro allI impI)
        fix m assume "m < Suc k"
        then consider "m < k" | "m = k" by linarith
        then show "rws' ! (q ! m) = (rows pool ! (q ! m))\<lparr>lprow := int (n1 + m)\<rparr>"
        proof cases
          case 1
          then have "q ! m \<noteq> q ! k" using dq k lq by (auto simp: distinct_conv_nth)
          then show ?thesis using I3[OF 1] by (simp add: rws'_def)
        next
          case 2
          then show ?thesis using rq qr[OF k] I1 n1 by (simp add: rws'_def)
        qed
      qed
      have A4: "\<forall>r < length (rows pool). r \<notin> set (take (Suc k) q) \<longrightarrow> rws' ! r = rows pool ! r"
        using I4 by (auto simp: tk rws'_def)
      have "A (Suc k) (rws', nc + len (rws ! (q ! k)))"
        unfolding A_def using A3 A4 I1 I2 rq by (simp add: tk rws'_def)
      then show "\<exists>v. assign_lprow (lprows pool) (nlprows pool + int k) st = Inr v \<and> A (Suc k) v"
        using step by blast
    qed
    then obtain rws nc where
      e1: "efold (assign_lprow (lprows pool)) (map (\<lambda>k. nlprows pool + int k) [0 ..< np]) (rows pool, 0) = Inr (rws, nc)"
      and An: "A np (rws, nc)" by (metis prod.exhaust)
    have R1: "length rws = length (rows pool)"
      and nc: "nc = (\<Sum>r\<leftarrow>q. len (rows pool ! r))"
      and R3: "\<And>m. m < np \<Longrightarrow> rws ! (q ! m) = (rows pool ! (q ! m))\<lparr>lprow := int (n1 + m)\<rparr>"
      and R4: "\<And>r. r < length (rows pool) \<Longrightarrow> r \<notin> set q \<Longrightarrow> rws ! r = rows pool ! r"
      using An lq unfolding A_def by auto
    define B where "B = (\<lambda>k (st :: rcoef list list \<times> int).
       st = (map (\<lambda>r. coefs (rows pool ! r)) (take k q), (\<Sum>r\<leftarrow>take k q. len (rows pool ! r))))"
    have "\<exists>t. efold (build_lp_row (lp_ncols (lp b)) (lprows pool) rws)
            (map (\<lambda>k. nlprows pool + int k) [0 ..< np]) ([], 0) = Inr t \<and> B np t"
    proof (rule efold_map_total[where P = B])
      show "B 0 ([], 0)" by (simp add: B_def)
    next
      fix k st assume k: "k < np" and Bk: "B k st"
      have P: "0 \<le> lprows pool ! (n1 + k)" "lprows pool ! (n1 + k) < int (length (rows pool))"
        "row_stored (lp_ncols (lp b)) (rows pool ! (q ! k))" using pend[OF k] by auto
      have idx: "nat (nlprows pool + int k) = n1 + k" "0 \<le> nlprows pool + int k"
        "nlprows pool + int k < int (length (lprows pool))"
        using n1 k bound by auto
      have cf: "coefs (rws ! (q ! k)) = coefs (rows pool ! (q ! k))" using R3[OF k] by simp
      have ser: "serialize_row (lp_ncols (lp b)) (coefs (rows pool ! (q ! k))) = Inr (coefs (rows pool ! (q ! k)))"
        using P(3) by (rule serialize_row_stored)
      have ln: "int (length (coefs (rows pool ! (q ! k)))) - 1 = len (rows pool ! (q ! k))"
        using P(3) by (simp add: row_stored_def)
      have tk: "take (Suc k) q = take k q @ [q ! k]" using k lq by (simp add: take_Suc_conv_app_nth)
      show "\<exists>v. build_lp_row (lp_ncols (lp b)) (lprows pool) rws (nlprows pool + int k) st = Inr v \<and> B (Suc k) v"
        using Bk idx P(1,2) R1 cf ser ln qk[OF k]
        by (simp add: B_def build_lp_row_def nth_e_def tk)
    qed
    then have e2: "efold (build_lp_row (lp_ncols (lp b)) (lprows pool) rws)
            (map (\<lambda>k. nlprows pool + int k) [0 ..< np]) ([], 0) =
          Inr (map (\<lambda>r. coefs (rows pool ! r)) q, (\<Sum>r\<leftarrow>q. len (rows pool ! r)))"
      using lq by (auto simp: B_def)
    have "add_pending_rows_to_LP b =
       Inr (b\<lparr>cpool := pool\<lparr>rows := rws, nlprows := nlprows pool + npend pool, npend := 0,
                       hwmrow := (if np = 0 then hwmrow pool else max (nlprows pool + npend pool) (hwmrow pool)),
                       hwmnz := (if np = 0 then hwmnz pool
                                 else max (lp_num_nz (lp b) + (\<Sum>r\<leftarrow>q. len (rows pool ! r))) (hwmnz pool))\<rparr>,
              lp := (lp b)\<lparr>lp_rows := lp_rows (lp b) @ map (\<lambda>r. coefs (rows pool ! r)) q\<rparr>\<rparr>)"
      using sync npos False e1 e2 nc
      by (simp add: add_pending_rows_to_LP_def Let_def pool_def[symmetric] range max_def)
    then show ?thesis using R1 R3 R4 by blast
  qed
qed

lemma positions_onto:
  fixes brow :: "int list"
  assumes "distinct brow" "\<And>j. j \<in> set brow \<Longrightarrow> 0 \<le> j \<and> j < int (length brow)" "k < length brow"
  shows "\<exists>m < length brow. brow ! m = int k"
proof -
  have sub: "set brow \<subseteq> int ` {0 ..< length brow}"
  proof
    fix j assume "j \<in> set brow"
    then have "0 \<le> j" "j < int (length brow)" using assms(2) by auto
    then have "j = int (nat j)" "nat j < length brow" by auto
    then show "j \<in> int ` {0 ..< length brow}" by (metis atLeastLessThan_iff image_eqI le0)
  qed
  have "card (set brow) = length brow" using assms(1) by (rule distinct_card)
  moreover have "card (int ` {0 ..< length brow}) = length brow" by (simp add: card_image)
  ultimately have "set brow = int ` {0 ..< length brow}"
    using sub by (intro card_subset_eq) auto
  then have "int k \<in> set brow" using assms(3) by auto
  then show ?thesis by (auto simp: in_set_conv_nth)
qed

lemma delsetrows_all: "lp_rows (delsetrows l (replicate (length (lp_rows l)) 1)) = []"
proof -
  have "\<And>fs. (\<forall>f \<in> set fs. f = (1::int)) \<Longrightarrow> filter (\<lambda>(r, f). f \<noteq> 1) (zip (lp_rows l) fs) = []"
    by (auto simp: filter_empty_conv dest: set_zip_rightD)
  then show ?thesis by (simp add: delsetrows_def)
qed

lemma row_stored_upd [simp]:
  "row_stored n (rc\<lparr>lprow := a\<rparr>) = row_stored n rc"
  "row_stored n (rc\<lparr>refc := c\<rparr>) = row_stored n rc"
  by (simp_all add: row_stored_def)

lemma restore_node_basis_ok:
  fixes s2 :: bbinfo and nodep :: bbnode and ld :: "nat list" and brow :: "int list"
  assumes pc: "pool_consistent (lp_ncols (lp s2)) (cpool s2)"
    and sync: "int (length (lp_rows (lp s2))) = nlprows (cpool s2)"
    and nu: "n_uids nodep = int (length ld)"
    and bu: "bc_uids nodep = Some (map (\<lambda>r. uid (rows (cpool s2) ! r)) ld)"
    and br: "bc_row nodep = Some brow"
    and srt: "sorted_wrt (<) ld" and ldr: "\<And>r. r \<in> set ld \<Longrightarrow> r < length (rows (cpool s2))"
    and lb: "length brow = length ld" and db: "distinct brow"
    and rb: "\<And>j. j \<in> set brow \<Longrightarrow> 0 \<le> j \<and> j < int (length ld)"
    and cap: "int (length ld) \<le> maxrows (cpool s2)"
  shows "\<exists>s3. restore_node_basis nodep s2 = Inr (fst (restore_finish nodep s3), snd (restore_finish nodep s3)) \<and>
     length (rows (cpool s3)) = length (rows (cpool s2)) \<and>
     (\<forall>m < length ld. rows (cpool s3) ! (ld ! m) =
        (rows (cpool s2) ! (ld ! m))\<lparr>refc := refc (rows (cpool s2) ! (ld ! m)) - 1, lprow := brow ! m\<rparr> \<and>
        lprows (cpool s3) ! nat (brow ! m) = int (ld ! m) \<and>
        lp_rows (lp s3) ! nat (brow ! m) = coefs (rows (cpool s2) ! (ld ! m))) \<and>
     (\<forall>r < length (rows (cpool s2)). r \<notin> set ld \<longrightarrow>
        rows (cpool s3) ! r = (rows (cpool s2) ! r)\<lparr>lprow := -1\<rparr>) \<and>
     nlprows (cpool s3) = int (length ld) \<and> npend (cpool s3) = 0 \<and>
     length (lp_rows (lp s3)) = length ld \<and>
     length (lprows (cpool s3)) = length (lprows (cpool s2)) \<and>
     lp_cstat (lp s3) = lp_cstat (lp s2) \<and> lp_rstat (lp s3) = lp_rstat (lp s2) \<and>
     lp_ncols (lp s3) = lp_ncols (lp s2)"
proof -
  let ?pool = "cpool s2"
  let ?rows = "rows ?pool"
  let ?n = "length ld"
  have ok: "lp_index_ok ?pool" and npd: "npend ?pool = 0"
    and ge: "list_all (\<lambda>rc. -1 \<le> lprow rc) ?rows"
    and st: "list_all (row_stored (lp_ncols (lp s2))) ?rows"
    and ui: "sorted_wrt (<) (map uid ?rows)" and mx: "maxrows ?pool = int (length (lprows ?pool))"
    using pc by (auto simp: pool_consistent_def no_pending_def uids_increasing_def)
  define rws1 where "rws1 = map (\<lambda>rc. rc\<lparr>lprow := -1\<rparr>) ?rows"
  define lpr1 where "lpr1 = replicate ?n (-1) @ drop ?n (lprows ?pool)"
  have u1: "efold (unload_step (lprows ?pool)) [0 .. nlprows ?pool - 1] ?rows = Inr rws1"
    unfolding rws1_def by (rule unload_loop[OF ok ge])
  have c1: "efold (\<lambda>i l. upd_e l i (-1)) [0 .. int ?n - 1] (lprows ?pool) = Inr lpr1"
    unfolding lpr1_def using clear_loop[of "int ?n" "lprows ?pool"] cap mx by simp
  have du: "distinct (map uid rws1)"
    using ui by (simp add: rws1_def comp_def strict_sorted_iff)
  have uid1: "map (\<lambda>r. uid (?rows ! r)) ld = map (\<lambda>r. uid (rws1 ! r)) ld"
    using ldr by (simp add: rws1_def)
  have ll: "?n \<le> length lpr1" using cap mx by (simp add: lpr1_def)
  from replay_loop[of ld rws1 brow lpr1, OF srt _ du _ lb db rb ll]
  obtain rws2 lpr2 pos where
    rl: "efold (replay_step (int ?n) (map (\<lambda>r. uid (rws1 ! r)) ld) brow) [0 .. int ?n - 1] (rws1, lpr1, 0)
           = Inr (rws2, lpr2, pos)"
    and l2: "length rws2 = length rws1"
    and r2: "\<And>r. r < length rws1 \<Longrightarrow> rws2 ! r =
        (if r \<in> set ld then (rws1 ! r)\<lparr>refc := refc (rws1 ! r) - 1, lprow := -2\<rparr> else rws1 ! r)"
    and ll2: "length lpr2 = length lpr1"
    and p2: "\<And>m. m < ?n \<Longrightarrow> lpr2 ! nat (brow ! m) = int (ld ! m)"
    using ldr by (auto simp: rws1_def lpr1_def nth_append)
  define pool2 where "pool2 = ?pool\<lparr>rows := rws2, lprows := lpr2, nlprows := 0, npend := int ?n\<rparr>"
  have rp: "restore_pending nodep (map (\<lambda>r. uid (?rows ! r)) ld) ?pool = Inr pool2"
    using u1 c1 rl cap nu br by (simp add: restore_pending_def Let_def uid1 pool2_def)
  define b2 where "b2 = s2\<lparr>cpool := pool2, lp := delsetrows (lp s2) (replicate (nat (int (length (lp_rows (lp s2))))) 1)\<rparr>"
  have lp2: "lp_rows (lp b2) = []" by (simp add: b2_def delsetrows_all)
  define q where "q = map (\<lambda>k. nat (lprows (cpool b2) ! (nat (nlprows (cpool b2)) + k))) [0 ..< nat (npend (cpool b2))]"
  have lq: "length q = ?n" by (simp add: q_def b2_def pool2_def)
  have qk: "\<And>k. k < ?n \<Longrightarrow> q ! k = nat (lpr2 ! k)" by (simp add: q_def b2_def pool2_def)
  have perm: "\<And>k. k < ?n \<Longrightarrow> \<exists>m < ?n. brow ! m = int k"
    using positions_onto[OF db, of _] rb lb by simp
  have qm: "\<And>m. m < ?n \<Longrightarrow> q ! nat (brow ! m) = ld ! m \<and> nat (brow ! m) < ?n"
  proof -
    fix m assume m: "m < ?n"
    have "0 \<le> brow ! m" "brow ! m < int ?n" using rb[of "brow ! m"] m lb by auto
    then have "nat (brow ! m) < ?n" by simp
    then show "q ! nat (brow ! m) = ld ! m \<and> nat (brow ! m) < ?n" using qk p2[OF m] by simp
  qed
  have dl: "distinct ld" using srt by (simp add: strict_sorted_iff)
  have qset: "\<And>k. k < ?n \<Longrightarrow> q ! k \<in> set ld"
  proof -
    fix k assume "k < ?n"
    then obtain m where "m < ?n" "brow ! m = int k" using perm by blast
    then show "q ! k \<in> set ld" using qm[of m] by (metis nat_int nth_mem)
  qed
  have dq: "distinct q"
  proof (rule ccontr)
    assume "\<not> distinct q"
    then obtain k k' where kk: "k < ?n" "k' < ?n" "k \<noteq> k'" "q ! k = q ! k'"
      using lq by (auto simp: distinct_conv_nth)
    obtain m m' where m: "m < ?n" "brow ! m = int k" "m' < ?n" "brow ! m' = int k'"
      using perm kk by blast
    have "ld ! m = ld ! m'" using qm[OF m(1)] qm[OF m(3)] m kk by simp
    then have "m = m'" using dl m by (simp add: nth_eq_iff_index_eq)
    then show False using m kk by simp
  qed
  have setq: "set q = set ld"
  proof
    show "set q \<subseteq> set ld" using qset lq by (auto simp: in_set_conv_nth)
    show "set ld \<subseteq> set q"
    proof
      fix r assume "r \<in> set ld"
      then obtain m where "m < ?n" "ld ! m = r" by (auto simp: in_set_conv_nth)
      then show "r \<in> set q" using qm[of m] lq by (metis nth_mem)
    qed
  qed
  have lr1: "length rws1 = length ?rows" by (simp add: rws1_def)
  have pendq: "\<And>k. k < nat (npend (cpool b2)) \<Longrightarrow>
     0 \<le> lprows (cpool b2) ! (nat (nlprows (cpool b2)) + k) \<and>
     lprows (cpool b2) ! (nat (nlprows (cpool b2)) + k) < int (length (rows (cpool b2))) \<and>
     lprow (rows (cpool b2) ! (q ! k)) = -2 \<and> row_stored (lp_ncols (lp b2)) (rows (cpool b2) ! (q ! k))"
  proof -
    fix k assume "k < nat (npend (cpool b2))"
    then have k: "k < ?n" by (simp add: b2_def pool2_def)
    then obtain m where m: "m < ?n" "brow ! m = int k" using perm by blast
    have lk: "lpr2 ! k = int (ld ! m)" using p2[OF m(1)] m(2) by simp
    have r: "ld ! m < length ?rows" "ld ! m \<in> set ld" using ldr m by auto
    have "rws2 ! (ld ! m) = (rws1 ! (ld ! m))\<lparr>refc := refc (rws1 ! (ld ! m)) - 1, lprow := -2\<rparr>"
      using r2[of "ld ! m"] r lr1 by simp
    moreover have "row_stored (lp_ncols (lp s2)) (?rows ! (ld ! m))"
      using st r by (simp add: list_all_length)
    moreover have "q ! k = ld ! m" using qk[OF k] lk by simp
    ultimately show "0 \<le> lprows (cpool b2) ! (nat (nlprows (cpool b2)) + k) \<and>
     lprows (cpool b2) ! (nat (nlprows (cpool b2)) + k) < int (length (rows (cpool b2))) \<and>
     lprow (rows (cpool b2) ! (q ! k)) = -2 \<and> row_stored (lp_ncols (lp b2)) (rows (cpool b2) ! (q ! k))"
      using lk r l2 lr1 by (simp add: b2_def pool2_def delsetrows_def rws1_def)
  qed
  have bnd: "nat (nlprows (cpool b2)) + nat (npend (cpool b2)) \<le> length (lprows (cpool b2))"
    using ll ll2 by (simp add: b2_def pool2_def)
  from add_pending_ok[of b2, folded q_def, OF _ _ bnd pendq dq]
  obtain rws3 s3 where
    ap: "add_pending_rows_to_LP b2 = Inr s3"
    and s3: "s3 = b2\<lparr>cpool := (cpool b2)\<lparr>rows := rws3, nlprows := nlprows (cpool b2) + npend (cpool b2), npend := 0,
                       hwmrow := (if nat (npend (cpool b2)) = 0 then hwmrow (cpool b2)
                                  else max (nlprows (cpool b2) + npend (cpool b2)) (hwmrow (cpool b2))),
                       hwmnz := (if nat (npend (cpool b2)) = 0 then hwmnz (cpool b2)
                                 else max (lp_num_nz (lp b2) + (\<Sum>r\<leftarrow>q. len (rows (cpool b2) ! r))) (hwmnz (cpool b2)))\<rparr>,
              lp := (lp b2)\<lparr>lp_rows := lp_rows (lp b2) @ map (\<lambda>r. coefs (rows (cpool b2) ! r)) q\<rparr>\<rparr>"
    and l3: "length rws3 = length (rows (cpool b2))"
    and r3: "\<And>k. k < nat (npend (cpool b2)) \<Longrightarrow> rws3 ! (q ! k) = (rows (cpool b2) ! (q ! k))\<lparr>lprow := int (nat (nlprows (cpool b2)) + k)\<rparr>"
    and r4: "\<And>r. r < length (rows (cpool b2)) \<Longrightarrow> r \<notin> set q \<Longrightarrow> rws3 ! r = rows (cpool b2) ! r"
    using lp2 by (auto simp: b2_def pool2_def)
  have res: "restore_node_basis nodep s2 = Inr (restore_finish nodep s3)"
    using bu npd sync rp ap by (simp add: restore_node_basis_def Let_def b2_def)
  have A: "\<forall>m < ?n. rows (cpool s3) ! (ld ! m) =
        (?rows ! (ld ! m))\<lparr>refc := refc (?rows ! (ld ! m)) - 1, lprow := brow ! m\<rparr> \<and>
        lprows (cpool s3) ! nat (brow ! m) = int (ld ! m) \<and>
        lp_rows (lp s3) ! nat (brow ! m) = coefs (?rows ! (ld ! m))"
  proof (intro allI impI)
    fix m assume m: "m < ?n"
    define k where "k = nat (brow ! m)"
    have k: "k < ?n" "q ! k = ld ! m" using qm[OF m] by (auto simp: k_def)
    have bk: "int k = brow ! m" using rb[of "brow ! m"] m lb by (simp add: k_def)
    have r: "ld ! m < length ?rows" "ld ! m \<in> set ld" using ldr m by auto
    have "rws3 ! (ld ! m) = (rws2 ! (ld ! m))\<lparr>lprow := int k\<rparr>"
      using r3[of k] k by (simp add: b2_def pool2_def)
    moreover have "rws2 ! (ld ! m) = (rws1 ! (ld ! m))\<lparr>refc := refc (rws1 ! (ld ! m)) - 1, lprow := -2\<rparr>"
      using r2[of "ld ! m"] r lr1 by simp
    ultimately have x: "rws3 ! (ld ! m) = (?rows ! (ld ! m))\<lparr>refc := refc (?rows ! (ld ! m)) - 1, lprow := brow ! m\<rparr>"
      using r bk by (simp add: rws1_def)
    have y: "coefs (rows (cpool b2) ! (ld ! m)) = coefs (?rows ! (ld ! m))"
      using r2[of "ld ! m"] r lr1 by (simp add: b2_def pool2_def rws1_def)
    show "rows (cpool s3) ! (ld ! m) =
        (?rows ! (ld ! m))\<lparr>refc := refc (?rows ! (ld ! m)) - 1, lprow := brow ! m\<rparr> \<and>
        lprows (cpool s3) ! nat (brow ! m) = int (ld ! m) \<and>
        lp_rows (lp s3) ! nat (brow ! m) = coefs (?rows ! (ld ! m))"
      using x p2[OF m] y k lq lp2 by (simp add: s3 b2_def[symmetric] k_def[symmetric])
        (simp add: b2_def pool2_def)
  qed
  have B: "\<forall>r < length ?rows. r \<notin> set ld \<longrightarrow> rows (cpool s3) ! r = (?rows ! r)\<lparr>lprow := -1\<rparr>"
  proof (intro allI impI)
    fix r assume r: "r < length ?rows" "r \<notin> set ld"
    have "rws3 ! r = rws2 ! r" using r4[of r] r setq l2 lr1 by (simp add: b2_def pool2_def)
    then show "rows (cpool s3) ! r = (?rows ! r)\<lparr>lprow := -1\<rparr>"
      using r2[of r] r lr1 by (simp add: s3 rws1_def)
  qed
  have C: "length (rows (cpool s3)) = length ?rows" "nlprows (cpool s3) = int ?n" "npend (cpool s3) = 0"
    "length (lp_rows (lp s3)) = ?n" "length (lprows (cpool s3)) = length (lprows ?pool)"
    "lp_cstat (lp s3) = lp_cstat (lp s2)" "lp_rstat (lp s3) = lp_rstat (lp s2)" "lp_ncols (lp s3) = lp_ncols (lp s2)"
    using l3 l2 lr1 lq lp2 ll2 cap mx
    by (simp_all add: s3) (simp_all add: b2_def pool2_def delsetrows_def lpr1_def)
  show ?thesis using res A B C by (intro exI[of _ s3]) simp
qed

lemma strip_eq:
  "rc\<lparr>lprow := 0, biter := 0\<rparr> = rc'\<lparr>lprow := 0, biter := 0\<rparr> \<Longrightarrow>
     rc = rc'\<lparr>lprow := lprow rc, biter := biter rc\<rparr>"
  by (cases rc, cases rc') simp

lemma same_rows_length:
  assumes "same_rows p q"
  shows "length (rows q) = length (rows p)"
proof -
  have m: "map (\<lambda>rc. rc\<lparr>lprow := 0, biter := 0\<rparr>) (rows p) = map (\<lambda>rc. rc\<lparr>lprow := 0, biter := 0\<rparr>) (rows q)"
    using assms(1) by (simp add: same_rows_def)
  show ?thesis using arg_cong[OF m, of length] by simp
qed

lemma same_rows_nth:
  assumes "same_rows p q" "r < length (rows p)"
  shows "rows q ! r = (rows p ! r)\<lparr>lprow := lprow (rows q ! r), biter := biter (rows q ! r)\<rparr>"
proof -
  have m: "map (\<lambda>rc. rc\<lparr>lprow := 0, biter := 0\<rparr>) (rows p) = map (\<lambda>rc. rc\<lparr>lprow := 0, biter := 0\<rparr>) (rows q)"
    using assms(1) by (simp add: same_rows_def)
  have "(rows q ! r)\<lparr>lprow := 0, biter := 0\<rparr> = (rows p ! r)\<lparr>lprow := 0, biter := 0\<rparr>"
    using arg_cong[OF m, of "\<lambda>xs. xs ! r"] assms(2) same_rows_length[OF assms(1)] by simp
  then show ?thesis by (rule strip_eq)
qed

lemma loaded_idx_sorted: "sorted_wrt (<) (loaded_idx rws)"
  unfolding loaded_idx_def by (intro sorted_wrt_filter) (simp add: sorted_wrt_upt)

lemma basis_round_trip_aux:
  fixes s0 s2 :: bbinfo
  assumes pc0: "pool_consistent (lp_ncols (lp s0)) (cpool s0)" and m0: "lp_matches_pool s0"
    and pc2: "pool_consistent (lp_ncols (lp s2)) (cpool s2)"
    and sync2: "int (length (lp_rows (lp s2))) = nlprows (cpool s2)"
    and sr: "same_rows ((cpool s0)\<lparr>rows := lock_rows (rows (cpool s0))\<rparr>) (cpool s2)"
    and nd: "n_uids node1 = nlprows (cpool s0)"
      "bc_uids node1 = Some (map (\<lambda>r. uid (rows (cpool s0) ! r)) (loaded_idx (rows (cpool s0))))"
      "bc_row node1 = Some (map (\<lambda>r. lprow (rows (cpool s0) ! r)) (loaded_idx (rows (cpool s0))))"
      "rstat node1 = Some (lp_rstat (lp s0))" "cstat node1 = Some (lp_cstat (lp s0))"
  shows "\<exists>node3 s3. restore_node_basis node1 s2 = Inr (node3, s3) \<and>
     map (\<lambda>rc. rc\<lparr>biter := 0\<rparr>) (rows (cpool s3)) = map (\<lambda>rc. rc\<lparr>biter := 0\<rparr>) (rows (cpool s0)) \<and>
     nlprows (cpool s3) = nlprows (cpool s0) \<and> npend (cpool s3) = 0 \<and>
     take (nat (nlprows (cpool s0))) (lprows (cpool s3)) = take (nat (nlprows (cpool s0))) (lprows (cpool s0)) \<and>
     lp_rows (lp s3) = lp_rows (lp s0) \<and>
     lp_cstat (lp s3) = lp_cstat (lp s0) \<and> lp_rstat (lp s3) = lp_rstat (lp s0) \<and>
     bc_uids node3 = None \<and> n_uids node3 = 0"
proof -
  let ?rows0 = "rows (cpool s0)" and ?rows2 = "rows (cpool s2)"
  define ld where "ld = loaded_idx ?rows0"
  define brow where "brow = map (\<lambda>r. lprow (?rows0 ! r)) ld"
  define n where "n = nat (nlprows (cpool s0))"
  have ok0: "lp_index_ok (cpool s0)" and ge0: "list_all (\<lambda>rc. -1 \<le> lprow rc) ?rows0"
    and mx0: "maxrows (cpool s0) = int (length (lprows (cpool s0)))"
    using pc0 by (auto simp: pool_consistent_def no_pending_def)
  have A0: "\<And>r. r < length ?rows0 \<Longrightarrow> 0 \<le> lprow (?rows0 ! r) \<Longrightarrow>
        lprow (?rows0 ! r) < nlprows (cpool s0) \<and> lprows (cpool s0) ! nat (lprow (?rows0 ! r)) = int r"
    using ok0 by (simp add: lp_index_ok_def)
  have n0: "0 \<le> nlprows (cpool s0)" "nlprows (cpool s0) \<le> int (length (lprows (cpool s0)))"
    using ok0 by (auto simp: lp_index_ok_def)
  note F = loaded_idx_facts[OF ok0, folded ld_def n_def]
  have lld: "length ld = n" using F(3) .
  have mem: "\<And>r. r \<in> set ld \<longleftrightarrow> r < length ?rows0 \<and> 0 \<le> lprow (?rows0 ! r)"
    by (auto simp: ld_def loaded_idx_def)
  have l2: "length ?rows2 = length ?rows0"
    using same_rows_length[OF sr] by (simp add: lock_rows_def)
  have e2: "\<And>r. r < length ?rows0 \<Longrightarrow> ?rows2 ! r =
        (lock_rows ?rows0 ! r)\<lparr>lprow := lprow (?rows2 ! r), biter := biter (?rows2 ! r)\<rparr>"
    using same_rows_nth[OF sr] by (simp add: lock_rows_def)
  have uid2: "\<And>r. r < length ?rows0 \<Longrightarrow> uid (?rows2 ! r) = uid (?rows0 ! r)"
  proof -
    fix r assume r: "r < length ?rows0"
    have "uid (?rows2 ! r) = uid (lock_rows ?rows0 ! r)" using e2[OF r] by (metis rcon.select_convs(8) rcon.surjective rcon.update_convs(4,5))
    then show "uid (?rows2 ! r) = uid (?rows0 ! r)" using r by (simp add: lock_rows_def)
  qed
  have bu: "bc_uids node1 = Some (map (\<lambda>r. uid (?rows2 ! r)) ld)"
    using nd(2) uid2 mem by (simp add: ld_def[symmetric])
  have db: "distinct brow"
  proof -
    have "distinct (map (\<lambda>r. nat (lprow (?rows0 ! r))) ld)" using F(1) .
    then have "inj_on (\<lambda>r. nat (lprow (?rows0 ! r))) (set ld)" "distinct ld" by (auto simp: distinct_map)
    then have "inj_on (\<lambda>r. lprow (?rows0 ! r)) (set ld)" by (auto simp: inj_on_def)
    then show ?thesis using \<open>distinct ld\<close> by (simp add: brow_def distinct_map)
  qed
  have rb: "\<And>j. j \<in> set brow \<Longrightarrow> 0 \<le> j \<and> j < int (length ld)"
    using A0 mem lld n0 by (auto simp: brow_def n_def)
  have cap: "int (length ld) \<le> maxrows (cpool s2)"
    using sr mx0 n0 lld by (simp add: same_rows_def n_def)
  have ldr: "\<And>r. r \<in> set ld \<Longrightarrow> r < length ?rows2" using mem l2 by simp
  from restore_node_basis_ok[where brow = brow and ld = ld, OF pc2 sync2 _ bu _ _ ldr _ db rb cap]
  obtain s3 where
    res: "restore_node_basis node1 s2 = Inr (fst (restore_finish node1 s3), snd (restore_finish node1 s3))"
    and l3: "length (rows (cpool s3)) = length ?rows2"
    and R: "\<And>m. m < length ld \<Longrightarrow> rows (cpool s3) ! (ld ! m) =
        (?rows2 ! (ld ! m))\<lparr>refc := refc (?rows2 ! (ld ! m)) - 1, lprow := brow ! m\<rparr> \<and>
        lprows (cpool s3) ! nat (brow ! m) = int (ld ! m) \<and>
        lp_rows (lp s3) ! nat (brow ! m) = coefs (?rows2 ! (ld ! m))"
    and Q: "\<And>r. r < length ?rows2 \<Longrightarrow> r \<notin> set ld \<Longrightarrow> rows (cpool s3) ! r = (?rows2 ! r)\<lparr>lprow := -1\<rparr>"
    and C: "nlprows (cpool s3) = int (length ld)" "npend (cpool s3) = 0"
      "length (lp_rows (lp s3)) = length ld" "length (lprows (cpool s3)) = length (lprows (cpool s2))"
    using nd(1,3) n0 lld loaded_idx_sorted[of ?rows0]
    by (auto simp: brow_def ld_def[symmetric] n_def)
  define node3 where "node3 = fst (restore_finish node1 s3)"
  define s3' where "s3' = snd (restore_finish node1 s3)"
  have fin: "s3' = s3\<lparr>lp := (lp s3)\<lparr>lp_cstat := lp_cstat (lp s0), lp_rstat := lp_rstat (lp s0)\<rparr>\<rparr>"
    "bc_uids node3 = None" "n_uids node3 = 0"
    using nd(4,5) by (simp_all add: s3'_def node3_def restore_finish_def)
  have rows3: "\<And>r. r < length ?rows0 \<Longrightarrow> (rows (cpool s3) ! r)\<lparr>biter := 0\<rparr> = (?rows0 ! r)\<lparr>biter := 0\<rparr>"
  proof -
    fix r assume r: "r < length ?rows0"
    show "(rows (cpool s3) ! r)\<lparr>biter := 0\<rparr> = (?rows0 ! r)\<lparr>biter := 0\<rparr>"
    proof (cases "r \<in> set ld")
      case True
      then obtain m where m: "m < length ld" "ld ! m = r" by (auto simp: in_set_conv_nth)
      have ld0: "0 \<le> lprow (?rows0 ! r)" using True mem by simp
      have "rows (cpool s3) ! r = (?rows2 ! r)\<lparr>refc := refc (?rows2 ! r) - 1, lprow := lprow (?rows0 ! r)\<rparr>"
        using R[OF m(1)] m by (simp add: brow_def)
      moreover have "?rows2 ! r = ((?rows0 ! r)\<lparr>refc := refc (?rows0 ! r) + 1\<rparr>)\<lparr>lprow := lprow (?rows2 ! r), biter := biter (?rows2 ! r)\<rparr>"
        using e2[OF r] r ld0 by (simp add: lock_rows_def)
      ultimately show ?thesis by (cases "?rows0 ! r", cases "?rows2 ! r") simp
    next
      case False
      then have "\<not> 0 \<le> lprow (?rows0 ! r)" using mem r by simp
      moreover have "-1 \<le> lprow (?rows0 ! r)" using ge0 r by (simp add: list_all_length)
      ultimately have m1: "lprow (?rows0 ! r) = -1" by linarith
      have "rows (cpool s3) ! r = (?rows2 ! r)\<lparr>lprow := -1\<rparr>" using Q[of r] r l2 False by simp
      moreover have "?rows2 ! r = (?rows0 ! r)\<lparr>lprow := lprow (?rows2 ! r), biter := biter (?rows2 ! r)\<rparr>"
        using e2[OF r] r m1 by (simp add: lock_rows_def)
      ultimately show ?thesis using m1 by (cases "?rows0 ! r", cases "?rows2 ! r") simp
    qed
  qed
  have rowsm: "map (\<lambda>rc. rc\<lparr>biter := 0\<rparr>) (rows (cpool s3)) = map (\<lambda>rc. rc\<lparr>biter := 0\<rparr>) ?rows0"
    using rows3 l3 l2 by (intro nth_equalityI) simp_all
  have pos: "\<And>i. i < n \<Longrightarrow> \<exists>m < length ld. brow ! m = int i \<and> int (ld ! m) = lprows (cpool s0) ! i"
  proof -
    fix i assume i: "i < n"
    have "i \<in> set (map (\<lambda>r. nat (lprow (?rows0 ! r))) ld)" using F(2) i by simp
    then obtain m where m: "m < length ld" "nat (lprow (?rows0 ! (ld ! m))) = i"
      by (auto simp: in_set_conv_nth)
    have r: "ld ! m < length ?rows0" "0 \<le> lprow (?rows0 ! (ld ! m))" using mem m(1) nth_mem by blast+
    then have "brow ! m = int i" using m by (simp add: brow_def)
    moreover have "lprows (cpool s0) ! i = int (ld ! m)" using A0[OF r] m(2) by simp
    ultimately show "\<exists>m < length ld. brow ! m = int i \<and> int (ld ! m) = lprows (cpool s0) ! i"
      using m(1) by auto
  qed
  have lpr: "take n (lprows (cpool s3)) = take n (lprows (cpool s0))"
  proof (intro nth_equalityI)
    have "int n \<le> int (length (lprows (cpool s2)))" using cap lld pc2 by (simp add: pool_consistent_def)
    then show "length (take n (lprows (cpool s3))) = length (take n (lprows (cpool s0)))"
      using C(4) n0 by (simp add: n_def)
  next
    fix i assume "i < length (take n (lprows (cpool s3)))"
    then have i: "i < n" by simp
    obtain m where m: "m < length ld" "brow ! m = int i" "int (ld ! m) = lprows (cpool s0) ! i"
      using pos[OF i] by blast
    show "take n (lprows (cpool s3)) ! i = take n (lprows (cpool s0)) ! i"
      using R[OF m(1)] m i by simp
  qed
  have lpe: "lp_rows (lp s3) = lp_rows (lp s0)"
  proof (rule nth_equalityI)
    have "int (length (lp_rows (lp s0))) = nlprows (cpool s0)" using m0 by (simp add: lp_matches_pool_def)
    then have "length (lp_rows (lp s0)) = n" by (simp add: n_def)
    then show "length (lp_rows (lp s3)) = length (lp_rows (lp s0))"
      using C(3) lld by simp
  next
    fix i assume "i < length (lp_rows (lp s3))"
    then have i: "i < n" using C(3) lld by simp
    obtain m where m: "m < length ld" "brow ! m = int i" "int (ld ! m) = lprows (cpool s0) ! i"
      using pos[OF i] by blast
    have r: "ld ! m < length ?rows0" using mem m(1) nth_mem by blast
    have c2: "coefs (?rows2 ! (ld ! m)) = coefs (?rows0 ! (ld ! m))"
      using e2[OF r] r by (cases "?rows0 ! (ld ! m)", cases "?rows2 ! (ld ! m)") (auto simp: lock_rows_def split: if_splits)
    have "int (length (lp_rows (lp s0))) = nlprows (cpool s0)" using m0 by (simp add: lp_matches_pool_def)
    then have "i < length (lp_rows (lp s0))" using i by (simp add: n_def)
    then have c0: "lp_rows (lp s0) ! i = coefs (?rows0 ! nat (lprows (cpool s0) ! i))"
      using m0 by (simp add: lp_matches_pool_def)
    have "nat (lprows (cpool s0) ! i) = ld ! m" using m(3) by (metis nat_int)
    moreover have "lp_rows (lp s3) ! i = coefs (?rows2 ! (ld ! m))" using R[OF m(1)] m(2) by simp
    ultimately show "lp_rows (lp s3) ! i = lp_rows (lp s0) ! i" using c0 c2 by simp
  qed
  have "restore_node_basis node1 s2 = Inr (node3, s3')" using res by (simp add: node3_def s3'_def)
  then show ?thesis
    using rowsm C(1,2) lld n0 lpr lpe fin by (intro exI[of _ node3] exI[of _ s3']) (simp add: n_def)
qed

lemma rt_save: "save_node_basis (node bb_rt0) bb_rt0 = Inr (node_rt1, bb_rt1)"
  by code_simp

lemma rt_other: "other_node_work bb_rt1 = Inr bb_rt2"
  by code_simp

lemma rt_pc0: "pool_consistent (lp_ncols (lp bb_rt0)) (cpool bb_rt0)"
  by code_simp

lemma rt_m0: "lp_matches_pool bb_rt0"
  by code_simp

lemma rt_pc2: "pool_consistent (lp_ncols (lp bb_rt2)) (cpool bb_rt2)"
  by code_simp

lemma rt_sync2: "int (length (lp_rows (lp bb_rt2))) = nlprows (cpool bb_rt2)"
  by code_simp

lemma rt_same: "same_rows (cpool bb_rt1) (cpool bb_rt2)"
  by code_simp


lemma map_filter_transfer:
  assumes "map f xs = map f ys" and "\<And>x. P x = Q (f x)" and "\<And>x. g x = h (f x)"
  shows "map g (filter P xs) = map g (filter P ys)"
proof -
  have "map g (filter P zs) = map h (filter Q (map f zs))" for zs
    using assms(2,3) by (induction zs) auto
  then have "map g (filter P xs) = map h (filter Q (map f xs))"
    "map g (filter P ys) = map h (filter Q (map f ys))" by blast+
  then show ?thesis using assms(1) by (simp only:)
qed

lemma map_transfer:
  assumes "map f xs = map f ys" and "\<And>x. g x = h (f x)"
  shows "map g xs = map g ys"
proof -
  have "map g zs = map h (map f zs)" for zs using assms(2) by simp
  then have "map g xs = map h (map f xs)" "map g ys = map h (map f ys)" by blast+
  then show ?thesis using assms(1) by (simp only:)
qed

text \<open>
  Claim C1.  In a consistent pool whose loaded rows the LP holds, \<open>save_node_basis\<close> succeeds;
  and from every later consistent state in which only the loading of rows has changed (rows
  were loaded into the LP or slack-deleted from it for another node, the stored rows, their
  identifiers and their reference counts being as the save left them), \<open>restore_node_basis\<close>
  succeeds and reinstates exactly the recorded rows: the loaded rows are the same, identifier
  for identifier and at the same LP positions, as at save time, every reference count is back
  at its value before the save, and the LP holds the same rows in the same order with the
  saved basis.
\<close>

theorem basis_round_trip:
  assumes "pool_consistent (lp_ncols (lp s0)) (cpool s0)" and "lp_matches_pool s0"
  shows "\<exists>node1 s1. save_node_basis nodep s0 = Inr (node1, s1) \<and>
    (\<forall>s2. pool_consistent (lp_ncols (lp s2)) (cpool s2) \<and>
          int (length (lp_rows (lp s2))) = nlprows (cpool s2) \<and>
          same_rows (cpool s1) (cpool s2) \<longrightarrow>
       (\<exists>node3 s3. restore_node_basis node1 s2 = Inr (node3, s3) \<and>
          map (\<lambda>rc. (uid rc, lprow rc)) (filter (\<lambda>rc. 0 \<le> lprow rc) (rows (cpool s3))) =
            map (\<lambda>rc. (uid rc, lprow rc)) (filter (\<lambda>rc. 0 \<le> lprow rc) (rows (cpool s0))) \<and>
          map (\<lambda>rc. (uid rc, refc rc)) (rows (cpool s3)) = map (\<lambda>rc. (uid rc, refc rc)) (rows (cpool s0)) \<and>
          map (\<lambda>rc. rc\<lparr>biter := 0\<rparr>) (rows (cpool s3)) = map (\<lambda>rc. rc\<lparr>biter := 0\<rparr>) (rows (cpool s0)) \<and>
          nlprows (cpool s3) = nlprows (cpool s0) \<and> npend (cpool s3) = 0 \<and>
          take (nat (nlprows (cpool s0))) (lprows (cpool s3)) =
            take (nat (nlprows (cpool s0))) (lprows (cpool s0)) \<and>
          lp_rows (lp s3) = lp_rows (lp s0) \<and>
          lp_cstat (lp s3) = lp_cstat (lp s0) \<and> lp_rstat (lp s3) = lp_rstat (lp s0)))"
proof -
  have ok0: "lp_index_ok (cpool s0)" using assms(1) by (simp add: pool_consistent_def)
  have sync0: "int (length (lp_rows (lp s0))) = nlprows (cpool s0)"
    using assms(2) by (simp add: lp_matches_pool_def)
  define node1 where "node1 = nodep\<lparr>n_uids := nlprows (cpool s0),
                 bc_uids := Some (map (\<lambda>r. uid (rows (cpool s0) ! r)) (loaded_idx (rows (cpool s0)))),
                 bc_row := Some (map (\<lambda>r. lprow (rows (cpool s0) ! r)) (loaded_idx (rows (cpool s0)))),
                 rstat := Some (lp_rstat (lp s0)), cstat := Some (lp_cstat (lp s0))\<rparr>"
  define s1 where "s1 = s0\<lparr>cpool := (cpool s0)\<lparr>rows := lock_rows (rows (cpool s0))\<rparr>\<rparr>"
  have sv: "save_node_basis nodep s0 = Inr (node1, s1)"
    using save_node_basis_ok[OF ok0 sync0, of nodep] by (simp add: node1_def s1_def)
  have "\<exists>node3 s3. restore_node_basis node1 s2 = Inr (node3, s3) \<and>
          map (\<lambda>rc. (uid rc, lprow rc)) (filter (\<lambda>rc. 0 \<le> lprow rc) (rows (cpool s3))) =
            map (\<lambda>rc. (uid rc, lprow rc)) (filter (\<lambda>rc. 0 \<le> lprow rc) (rows (cpool s0))) \<and>
          map (\<lambda>rc. (uid rc, refc rc)) (rows (cpool s3)) = map (\<lambda>rc. (uid rc, refc rc)) (rows (cpool s0)) \<and>
          map (\<lambda>rc. rc\<lparr>biter := 0\<rparr>) (rows (cpool s3)) = map (\<lambda>rc. rc\<lparr>biter := 0\<rparr>) (rows (cpool s0)) \<and>
          nlprows (cpool s3) = nlprows (cpool s0) \<and> npend (cpool s3) = 0 \<and>
          take (nat (nlprows (cpool s0))) (lprows (cpool s3)) =
            take (nat (nlprows (cpool s0))) (lprows (cpool s0)) \<and>
          lp_rows (lp s3) = lp_rows (lp s0) \<and>
          lp_cstat (lp s3) = lp_cstat (lp s0) \<and> lp_rstat (lp s3) = lp_rstat (lp s0)"
    if h: "pool_consistent (lp_ncols (lp s2)) (cpool s2)"
      "int (length (lp_rows (lp s2))) = nlprows (cpool s2)" "same_rows (cpool s1) (cpool s2)" for s2
  proof -
    have sr: "same_rows ((cpool s0)\<lparr>rows := lock_rows (rows (cpool s0))\<rparr>) (cpool s2)"
      using h(3) by (simp add: s1_def)
    from basis_round_trip_aux[OF assms(1,2) h(1,2) sr, of node1]
    obtain node3 s3 where R: "restore_node_basis node1 s2 = Inr (node3, s3)"
      "map (\<lambda>rc. rc\<lparr>biter := 0\<rparr>) (rows (cpool s3)) = map (\<lambda>rc. rc\<lparr>biter := 0\<rparr>) (rows (cpool s0))"
      "nlprows (cpool s3) = nlprows (cpool s0)" "npend (cpool s3) = 0"
      "take (nat (nlprows (cpool s0))) (lprows (cpool s3)) = take (nat (nlprows (cpool s0))) (lprows (cpool s0))"
      "lp_rows (lp s3) = lp_rows (lp s0)"
      "lp_cstat (lp s3) = lp_cstat (lp s0)" "lp_rstat (lp s3) = lp_rstat (lp s0)"
      by (auto simp: node1_def)
    have a: "map (\<lambda>rc. (uid rc, lprow rc)) (filter (\<lambda>rc. 0 \<le> lprow rc) (rows (cpool s3))) =
            map (\<lambda>rc. (uid rc, lprow rc)) (filter (\<lambda>rc. 0 \<le> lprow rc) (rows (cpool s0)))"
      by (rule map_filter_transfer[OF R(2), where Q = "\<lambda>rc. 0 \<le> lprow rc" and h = "\<lambda>rc. (uid rc, lprow rc)"]) simp_all
    have b: "map (\<lambda>rc. (uid rc, refc rc)) (rows (cpool s3)) = map (\<lambda>rc. (uid rc, refc rc)) (rows (cpool s0))"
      by (rule map_transfer[OF R(2), where h = "\<lambda>rc. (uid rc, refc rc)"]) simp
    show ?thesis using R a b by blast
  qed
  then show ?thesis using sv by blast
qed

theorem basis_round_trip_witness:
  "pool_consistent (lp_ncols (lp bb_rt0)) (cpool bb_rt0) \<and> lp_matches_pool bb_rt0 \<and>
   save_node_basis (node bb_rt0) bb_rt0 = Inr (node_rt1, bb_rt1) \<and>
   other_node_work bb_rt1 = Inr bb_rt2 \<and>
   pool_consistent (lp_ncols (lp bb_rt2)) (cpool bb_rt2) \<and>
   int (length (lp_rows (lp bb_rt2))) = nlprows (cpool bb_rt2) \<and>
   same_rows (cpool bb_rt1) (cpool bb_rt2) \<and>
   (\<exists>node3 s3. restore_node_basis node_rt1 bb_rt2 = Inr (node3, s3) \<and>
      map (\<lambda>rc. (uid rc, lprow rc)) (filter (\<lambda>rc. 0 \<le> lprow rc) (rows (cpool s3))) = [(0, 0)] \<and>
      map (\<lambda>rc. (uid rc, refc rc)) (rows (cpool s3)) = [(0, 0), (1, 0)] \<and>
      lp_rows (lp s3) = [row_x1_x2_le_1])"
proof -
  from basis_round_trip[OF rt_pc0 rt_m0, of "node bb_rt0"]
  obtain node1 s1 where sv: "save_node_basis (node bb_rt0) bb_rt0 = Inr (node1, s1)"
    and R: "\<And>s2. pool_consistent (lp_ncols (lp s2)) (cpool s2) \<Longrightarrow>
          int (length (lp_rows (lp s2))) = nlprows (cpool s2) \<Longrightarrow>
          same_rows (cpool s1) (cpool s2) \<Longrightarrow>
       (\<exists>node3 s3. restore_node_basis node1 s2 = Inr (node3, s3) \<and>
          map (\<lambda>rc. (uid rc, lprow rc)) (filter (\<lambda>rc. 0 \<le> lprow rc) (rows (cpool s3))) =
            map (\<lambda>rc. (uid rc, lprow rc)) (filter (\<lambda>rc. 0 \<le> lprow rc) (rows (cpool bb_rt0))) \<and>
          map (\<lambda>rc. (uid rc, refc rc)) (rows (cpool s3)) = map (\<lambda>rc. (uid rc, refc rc)) (rows (cpool bb_rt0)) \<and>
          lp_rows (lp s3) = lp_rows (lp bb_rt0))"
    by blast
  have e: "node1 = node_rt1" "s1 = bb_rt1" using sv rt_save by simp_all
  have v: "map (\<lambda>rc. (uid rc, lprow rc)) (filter (\<lambda>rc. 0 \<le> lprow rc) (rows (cpool bb_rt0))) = [(0, 0)]"
    "map (\<lambda>rc. (uid rc, refc rc)) (rows (cpool bb_rt0)) = [(0, 0), (1, 0)]"
    "lp_rows (lp bb_rt0) = [row_x1_x2_le_1]"
    by (simp_all add: bb_rt0_def)
  show ?thesis
    using R[of bb_rt2, unfolded e, OF rt_pc2 rt_sync2 rt_same] rt_pc0 rt_m0 rt_save rt_other rt_pc2 rt_sync2 rt_same
    unfolding v by simp
qed

section \<open>Adding rows without duplicates\<close>

lemma hash_row_prefix:
  assumes "hash_row g k c = Inr (reg, n)"
  shows "k \<le> n \<and> nat (n - k) < length c \<and>
    (\<forall>c'. take (nat (n - k + 1)) c' = take (nat (n - k + 1)) c \<longrightarrow> hash_row g k c' = Inr (reg, n))"
  using assms
proof (induction c arbitrary: g k)
  case Nil
  then show ?case by simp
next
  case (Cons p ps)
  show ?case
  proof (cases "var p < RC_VAR_BASE")
    case True
    then have e: "reg = g" "n = k" using Cons.prems by auto
    have "hash_row g k c' = Inr (reg, n)" if "take (nat (n - k + 1)) c' = take (nat (n - k + 1)) (p # ps)" for c'
    proof -
      from that e have "take 1 c' = [p]" by simp
      then obtain cs where "c' = p # cs" by (cases c') auto
      then show ?thesis using True e by simp
    qed
    then show ?thesis using e by simp
  next
    case False
    then have r: "hash_row (HASH (HASH g (word_of_int (var p))) (word_of_int (val p))) (k + 1) ps = Inr (reg, n)"
      using Cons.prems by simp
    from Cons.IH[OF r] have kn: "k + 1 \<le> n" and ln: "nat (n - (k + 1)) < length ps"
      and pre: "\<And>c'. take (nat (n - (k + 1) + 1)) c' = take (nat (n - (k + 1) + 1)) ps \<Longrightarrow>
         hash_row (HASH (HASH g (word_of_int (var p))) (word_of_int (val p))) (k + 1) c' = Inr (reg, n)"
      by auto
    have s: "nat (n - k + 1) = Suc (nat (n - (k + 1) + 1))" using kn by simp
    have "hash_row g k c' = Inr (reg, n)" if t: "take (nat (n - k + 1)) c' = take (nat (n - k + 1)) (p # ps)" for c'
    proof -
      from t obtain cs where c': "c' = p # cs" "take (nat (n - (k + 1) + 1)) cs = take (nat (n - (k + 1) + 1)) ps"
        unfolding s by (cases c') auto
      then show ?thesis using False pre[of cs] by simp
    qed
    moreover have "nat (n - k) < length (p # ps)" using ln kn by (simp add: nat_diff_distrib)
    ultimately show ?thesis using kn by simp
  qed
qed

lemma hash_row_same_stored:
  assumes "hash_row 0 0 c = Inr (reg, n)" "take (nat (n + 1)) c' = take (nat (n + 1)) c"
  shows "hash_row 0 0 c' = Inr (reg, n)"
  using hash_row_prefix[OF assms(1)] assms(2) by simp

lemma stored_formD:
  assumes "stored_form r = Some (n, c)"
  obtains rp reg where "reduce_constraint r = Inr rp" "hash_row 0 0 rp = Inr (reg, n)"
    "c = take (nat (n + 1)) rp" "hash_row 0 0 c = Inr (reg, n)" "0 \<le> n"
proof -
  from assms obtain rp reg where a: "reduce_constraint r = Inr rp" "hash_row 0 0 rp = Inr (reg, n)"
    "c = take (nat (n + 1)) rp"
    by (auto simp: stored_form_def split: sum.splits)
  have "hash_row 0 0 c = Inr (reg, n)" using hash_row_same_stored[OF a(2)] a(3) by simp
  moreover have "0 \<le> n" using hash_row_prefix[OF a(2)] by simp
  ultimately show ?thesis using a that by blast
qed

lemma bucket_range: "0 \<le> bucket reg \<and> bucket reg < CPOOL_HASH_SIZE"
proof -
  have "\<bar>sint reg smod 1009\<bar> < 1009"
    by (simp add: signed_modulo_int_def abs_mult abs_sgn_eq abs_mod_less)
  then show ?thesis by (auto simp: bucket_def CPOOL_HASH_SIZE_def Let_def)
qed

lemma chain_fuel:
  assumes dec: "\<And>r. r < length rws \<Longrightarrow> next_r (rws ! r) < int r"
  shows "h < int f \<Longrightarrow> h < int f' \<Longrightarrow> chain f rws h = chain f' rws h"
proof (induction f arbitrary: f' h)
  case 0
  then show ?case by (cases f') auto
next
  case (Suc f)
  show ?case
  proof (cases "h < 0 \<or> int (length rws) \<le> h")
    case True
    then show ?thesis by (cases f') auto
  next
    case False
    then obtain f'' where f': "f' = Suc f''" using Suc.prems by (cases f') auto
    have "next_r (rws ! nat h) < h" using dec[of "nat h"] False by auto
    then have "chain f rws (next_r (rws ! nat h)) = chain f'' rws (next_r (rws ! nat h))"
      using Suc.prems f' by (intro Suc.IH) auto
    then show ?thesis using False f' by simp
  qed
qed

lemma scan_chain:
  assumes dec: "\<And>r. r < length rws \<Longrightarrow> next_r (rws ! r) < int r"
  shows "row < int (length rws) \<Longrightarrow> row < int fuel \<Longrightarrow>
    scan_bucket (Suc fuel) rws row n rp =
      Some (Inr (\<exists>i \<in> set (chain (Suc fuel) rws row).
               len (rws ! nat i) = n \<and> take (nat (n + 1)) (coefs (rws ! nat i)) = take (nat (n + 1)) rp))"
proof (induction fuel arbitrary: row)
  case 0
  then show ?case by simp
next
  case (Suc fuel)
  show ?case
  proof (cases "row < 0")
    case True
    then show ?thesis by simp
  next
    case False
    then have r: "0 \<le> row" "nat row < length rws" using Suc.prems by auto
    have nx: "next_r (rws ! nat row) < row" using dec[OF r(2)] r by simp
    then have IH: "scan_bucket (Suc fuel) rws (next_r (rws ! nat row)) n rp =
      Some (Inr (\<exists>i \<in> set (chain (Suc fuel) rws (next_r (rws ! nat row))).
               len (rws ! nat i) = n \<and> take (nat (n + 1)) (coefs (rws ! nat i)) = take (nat (n + 1)) rp))"
      using Suc.prems by (intro Suc.IH) auto
    have ch: "chain (Suc (Suc fuel)) rws row = row # chain (Suc fuel) rws (next_r (rws ! nat row))"
      using r Suc.prems(1) by simp
    have sc: "scan_bucket (Suc (Suc fuel)) rws row n rp =
       (if len (rws ! nat row) = n \<and> take (nat (n + 1)) (coefs (rws ! nat row)) = take (nat (n + 1)) rp
        then Some (Inr True) else scan_bucket (Suc fuel) rws (next_r (rws ! nat row)) n rp)"
      using r Suc.prems(1) by (simp add: nth_e_def)
    show ?thesis unfolding sc ch IH by auto
  qed
qed

lemma append_row_shape:
  assumes "append_row pool rp n hv a = Inr (b, p1)"
  shows "b \<and> 0 \<le> hv \<and> nat hv < length (hash p1) \<and> hash p1 ! nat hv = int (length (rows pool)) \<and>
     length (rows p1) = Suc (length (rows pool)) \<and>
     take (length (rows pool)) (rows p1) = rows pool \<and>
     len (rows p1 ! length (rows pool)) = n \<and> coefs (rows p1 ! length (rows pool)) = take (nat (n + 1)) rp \<and>
     next_r (rows p1 ! length (rows pool)) = hash pool ! nat hv \<and>
     hash p1 = (hash pool)[nat hv := int (length (rows pool))]"
proof -
  from assms obtain pool1 head where g: "grow_lprows (pool\<lparr>num_nz := num_nz pool + n\<rparr>) = Inr pool1"
    and h: "nth_e (hash pool1) hv = Inr head"
    by (auto simp: append_row_def ebind_eq_Inr)
  have p1r: "rows pool1 = rows pool" "hash pool1 = hash pool"
    using g by (auto simp: grow_lprows_def split: if_splits)
  define rcp where "rcp = \<lparr>len = n, coefs = take (nat (n + 1)) rp, next_r = head, lprow = -1,
                  biter = iter_p pool1, hval = hv, flags = 0, uid = uid_p pool1, refc = 0\<rparr>"
  define pool2 where "pool2 = pool1\<lparr>rows := rows pool1 @ [rcp], uid_p := uid_p pool1 + 1,
                         hash := (hash pool1)[nat hv := nrows pool1]\<rparr>"
  have hv: "0 \<le> hv" "nat hv < length (hash pool)" "head = hash pool ! nat hv"
    using h p1r by (auto simp: nth_e_eq_Inr)
  have cases: "p1 = pool2 \<or> mark_row_pending_to_LP pool2 (nrows pool1) = Inr p1" and b: b
    using assms g h by (auto simp: append_row_def Let_def rcp_def pool2_def ebind_eq_Inr split: if_splits)
  have mk: "mark_row_pending_to_LP pool2 (nrows pool1) = Inr p1 \<Longrightarrow>
     hash p1 = hash pool2 \<and> rows p1 = (rows pool2)[length (rows pool) := rcp\<lparr>lprow := -2\<rparr>]"
    by (auto simp: mark_row_pending_to_LP_def Let_def pool2_def nrows_def p1r rcp_def ebind_eq_Inr
        split: if_splits)
  from cases show ?thesis
  proof
    assume "p1 = pool2"
    then show ?thesis using b hv p1r by (simp add: pool2_def rcp_def nrows_def)
  next
    assume "mark_row_pending_to_LP pool2 (nrows pool1) = Inr p1"
    from mk[OF this] show ?thesis using b hv p1r
      by (simp add: pool2_def rcp_def nrows_def list_update_append)
  qed
qed

lemma chain_set: "i \<in> set (chain f rws h) \<Longrightarrow> 0 \<le> i \<and> i < int (length rws)"
  by (induction f arbitrary: h) (auto split: if_splits)

lemma chain_append:
  assumes dec: "\<And>r. r < length rws \<Longrightarrow> next_r (rws ! r) < int r"
  shows "h < int (length rws) \<Longrightarrow> chain f (rws @ ys) h = chain f rws h"
proof (induction f arbitrary: h)
  case 0
  then show ?case by simp
next
  case (Suc f)
  show ?case
  proof (cases "h < 0")
    case True
    then show ?thesis by simp
  next
    case False
    then have r: "nat h < length rws" using Suc.prems by auto
    have "next_r (rws ! nat h) < h" using dec[OF r] False by simp
    then have "chain f (rws @ ys) (next_r (rws ! nat h)) = chain f rws (next_r (rws ! nat h))"
      using Suc.prems by (intro Suc.IH) auto
    then show ?thesis using False r Suc.prems by (simp add: nth_append)
  qed
qed

lemma hash_okD:
  assumes "hash_ok pool"
  shows "int (length (hash pool)) = 1009"
    and "\<And>k. k < length (hash pool) \<Longrightarrow> -1 \<le> hash pool ! k \<and> hash pool ! k < int (length (rows pool))"
    and "\<And>r. r < length (rows pool) \<Longrightarrow> -1 \<le> next_r (rows pool ! r) \<and> next_r (rows pool ! r) < int r"
    and "\<And>r. r < length (rows pool) \<Longrightarrow> 0 \<le> row_bucket (coefs (rows pool ! r)) \<and>
        int r \<in> set (chain (length (rows pool)) (rows pool)
                       (hash pool ! nat (row_bucket (coefs (rows pool ! r)))))"
  using assms by (simp_all add: hash_ok_def CPOOL_HASH_SIZE_def list_all_length nrows_def)

lemma take_stored: "c = take (nat (n + 1)) rp \<Longrightarrow> take (nat (n + 1)) c = c"
  by simp

lemma found_iff:
  assumes ok: "hash_ok pool"
    and h: "hash_row 0 0 c = Inr (reg, n)"
    and c: "take (nat (n + 1)) c = c"
  shows "(\<exists>i \<in> set (chain (Suc (length (rows pool))) (rows pool) (hash pool ! nat (bucket reg))).
            len (rows pool ! nat i) = n \<and> take (nat (n + 1)) (coefs (rows pool ! nat i)) = c)
         \<longleftrightarrow> holds_row pool (n, c)"
proof
  assume "\<exists>i \<in> set (chain (Suc (length (rows pool))) (rows pool) (hash pool ! nat (bucket reg))).
            len (rows pool ! nat i) = n \<and> take (nat (n + 1)) (coefs (rows pool ! nat i)) = c"
  then obtain i where i: "i \<in> set (chain (Suc (length (rows pool))) (rows pool) (hash pool ! nat (bucket reg)))"
    and m: "len (rows pool ! nat i) = n" "take (nat (n + 1)) (coefs (rows pool ! nat i)) = c"
    by blast
  from chain_set[OF i] have "nat i < length (rows pool)" by (simp add: nat_less_iff)
  then have "rows pool ! nat i \<in> set (rows pool)" by simp
  with m show "holds_row pool (n, c)" unfolding holds_row_def by auto
next
  assume "holds_row pool (n, c)"
  then obtain rc where rc: "rc \<in> set (rows pool)" "len rc = n" "take (nat (n + 1)) (coefs rc) = c"
    unfolding holds_row_def by auto
  then obtain r where r: "r < length (rows pool)" "rc = rows pool ! r"
    by (auto simp: in_set_conv_nth)
  have "take (nat (n - 0 + 1)) (coefs rc) = take (nat (n - 0 + 1)) c" using rc(3) c by simp
  with hash_row_prefix[OF h] have "hash_row 0 0 (coefs rc) = Inr (reg, n)" by blast
  then have rb: "row_bucket (coefs rc) = bucket reg" by (simp add: row_bucket_def)
  have br: "0 \<le> bucket reg" "bucket reg < 1009" using bucket_range[of reg] by (simp_all add: CPOOL_HASH_SIZE_def)
  then have k: "nat (bucket reg) < length (hash pool)" using hash_okD(1)[OF ok] by simp
  have hd: "hash pool ! nat (bucket reg) < int (length (rows pool))" using hash_okD(2)[OF ok k] by simp
  have dec: "\<And>r. r < length (rows pool) \<Longrightarrow> next_r (rows pool ! r) < int r"
    using hash_okD(3)[OF ok] by simp
  have "int r \<in> set (chain (length (rows pool)) (rows pool) (hash pool ! nat (bucket reg)))"
    using hash_okD(4)[OF ok r(1)] r(2) rb by simp
  also have "chain (length (rows pool)) (rows pool) (hash pool ! nat (bucket reg)) =
             chain (Suc (length (rows pool))) (rows pool) (hash pool ! nat (bucket reg))"
    using hd by (intro chain_fuel[OF dec]) auto
  finally show "\<exists>i \<in> set (chain (Suc (length (rows pool))) (rows pool) (hash pool ! nat (bucket reg))).
            len (rows pool ! nat i) = n \<and> take (nat (n + 1)) (coefs (rows pool ! nat i)) = c"
    using rc r by (intro bexI[of _ "int r"]) auto
qed

lemma add_constraint_cases:
  assumes ok: "hash_ok pool" and sf: "stored_form r = Some (n, c)"
  shows "\<exists>rp reg. c = take (nat (n + 1)) rp \<and> hash_row 0 0 c = Inr (reg, n) \<and>
     add_constraint_to_pool pool r a =
       (if holds_row pool (n, c) then Some (Inr (False, pool))
        else Some (append_row pool rp n (bucket reg) a))"
proof -
  from stored_formD[OF sf] obtain rp reg where rd: "reduce_constraint r = Inr rp"
    and h: "hash_row 0 0 rp = Inr (reg, n)" and c: "c = take (nat (n + 1)) rp"
    and hc: "hash_row 0 0 c = Inr (reg, n)" and n: "0 \<le> n" by blast
  have br: "0 \<le> bucket reg" "bucket reg < 1009" using bucket_range[of reg] by (simp_all add: CPOOL_HASH_SIZE_def)
  then have k: "nat (bucket reg) < length (hash pool)" using hash_okD(1)[OF ok] by simp
  have ne: "nth_e (hash pool) (bucket reg) = Inr (hash pool ! nat (bucket reg))"
    using br k by (simp add: nth_e_def)
  have hd: "hash pool ! nat (bucket reg) < int (length (rows pool))" using hash_okD(2)[OF ok k] by simp
  have dec: "\<And>r. r < length (rows pool) \<Longrightarrow> next_r (rows pool ! r) < int r"
    using hash_okD(3)[OF ok] by simp
  have sc: "scan_bucket (length (rows pool) + 1) (rows pool) (hash pool ! nat (bucket reg)) n rp =
     Some (Inr (holds_row pool (n, c)))"
    using scan_chain[OF dec hd hd, of n rp] found_iff[OF ok hc take_stored[OF c]] c by simp
  have "add_constraint_to_pool pool r a =
       (if holds_row pool (n, c) then Some (Inr (False, pool))
        else Some (append_row pool rp n (bucket reg) a))"
    by (cases "holds_row pool (n, c)")
       (simp_all only: add_constraint_to_pool_def rd h ne sc Let_def sum.case prod.case option.case
          bool.case if_True if_False)
  with c hc show ?thesis by blast
qed

lemma grow_lprows_ok:
  assumes "room_ok pool"
  shows "\<exists>pool1. grow_lprows (pool\<lparr>num_nz := z\<rparr>) = Inr pool1 \<and>
     rows pool1 = rows pool \<and> hash pool1 = hash pool \<and> nlprows pool1 = nlprows pool \<and>
     npend pool1 = npend pool \<and> int (length (lprows pool1)) = maxrows pool1 \<and>
     nrows pool < maxrows pool1"
proof (cases "nrows pool < maxrows pool")
  case True
  then show ?thesis using assms by (simp add: grow_lprows_def room_ok_def nrows_def)
next
  case False
  then have e: "maxrows pool = int (length (rows pool))" "0 < length (rows pool)"
    using assms by (auto simp: room_ok_def nrows_def)
  have "nat (2 * int (length (rows pool))) - length (rows pool) = length (rows pool)" by simp
  then show ?thesis using assms e
    by (simp add: grow_lprows_def room_ok_def nrows_def)
qed

lemma append_row_ok:
  assumes rm: "room_ok pool" and hv: "0 \<le> hv" "nat hv < length (hash pool)"
  shows "\<exists>p1. append_row pool rp n hv a = Inr (True, p1) \<and> room_ok p1"
proof -
  from grow_lprows_ok[OF rm, of "num_nz pool + n"] obtain pool1 where
    g: "grow_lprows (pool\<lparr>num_nz := num_nz pool + n\<rparr>) = Inr pool1"
    and p1: "rows pool1 = rows pool" "hash pool1 = hash pool" "nlprows pool1 = nlprows pool"
      "npend pool1 = npend pool" "int (length (lprows pool1)) = maxrows pool1"
      "nrows pool < maxrows pool1" by blast
  have h: "nth_e (hash pool1) hv = Inr (hash pool ! nat hv)"
    using hv p1 by (simp add: nth_e_def nat_less_iff)
  define rcp where "rcp = \<lparr>len = n, coefs = take (nat (n + 1)) rp, next_r = hash pool ! nat hv, lprow = -1,
                  biter = iter_p pool1, hval = hv, flags = 0, uid = uid_p pool1, refc = 0\<rparr>"
  define pool2 where "pool2 = pool1\<lparr>rows := rows pool1 @ [rcp], uid_p := uid_p pool1 + 1,
                         hash := (hash pool1)[nat hv := nrows pool1]\<rparr>"
  have ap: "append_row pool rp n hv a =
     (if a then ebind (mark_row_pending_to_LP pool2 (nrows pool1)) (\<lambda>pool3. Inr (True, pool3))
      else Inr (True, pool2))"
    by (simp add: append_row_def g h Let_def rcp_def pool2_def)
  have r2: "room_ok pool2"
    using rm p1 by (simp add: room_ok_def pool2_def nrows_def)
  show ?thesis
  proof (cases a)
    case False
    then show ?thesis using ap r2 by simp
  next
    case True
    have b: "0 \<le> nlprows pool + npend pool" "nlprows pool + npend pool < int (length (lprows pool1))"
      using rm p1 by (simp_all add: room_ok_def nrows_def)
    define pool3 where "pool3 = pool2\<lparr>rows := (rows pool2)[length (rows pool) := rcp\<lparr>lprow := -2\<rparr>],
        npend := npend pool2 + 1,
        lprows := (lprows pool2)[nat (nlprows pool + npend pool) := int (length (rows pool))]\<rparr>"
    have mk: "mark_row_pending_to_LP pool2 (nrows pool1) = Inr pool3"
      using b p1
      by (simp add: mark_row_pending_to_LP_def pool2_def nrows_def rcp_def upd_e_def pool3_def Let_def)
    have "room_ok pool3" using rm p1 by (simp add: room_ok_def pool3_def nrows_def pool2_def)
    then show ?thesis using ap True mk by simp
  qed
qed

lemma hash_ok_append:
  assumes ok: "hash_ok pool"
    and rw: "rows p1 = rows pool @ [new]"
    and nx: "next_r new = hash pool ! nat hv"
    and hs: "hash p1 = (hash pool)[nat hv := int (length (rows pool))]"
    and hv: "0 \<le> hv" "nat hv < length (hash pool)"
    and rb: "row_bucket (coefs new) = hv"
  shows "hash_ok p1"
proof -
  let ?L = "length (rows pool)"
  have dec: "\<And>r. r < ?L \<Longrightarrow> next_r (rows pool ! r) < int r"
    using hash_okD(3)[OF ok] by simp
  have hd: "-1 \<le> hash pool ! nat hv" "hash pool ! nat hv < int ?L"
    using hash_okD(2)[OF ok hv(2)] by simp_all
  have c1: "int (length (hash p1)) = CPOOL_HASH_SIZE"
    using hash_okD(1)[OF ok] hs by (simp add: CPOOL_HASH_SIZE_def)
  have c2: "list_all (\<lambda>h. -1 \<le> h \<and> h < nrows p1) (hash p1)"
    unfolding list_all_length
  proof (intro allI impI)
    fix k assume k: "k < length (hash p1)"
    then have k': "k < length (hash pool)" using hs by simp
    show "-1 \<le> hash p1 ! k \<and> hash p1 ! k < nrows p1"
      using hash_okD(2)[OF ok k'] k' by (cases "k = nat hv") (simp_all add: hs rw nrows_def)
  qed
  have c3: "\<forall>r < length (rows p1). -1 \<le> next_r (rows p1 ! r) \<and> next_r (rows p1 ! r) < int r"
  proof (intro allI impI)
    fix r assume r: "r < length (rows p1)"
    show "-1 \<le> next_r (rows p1 ! r) \<and> next_r (rows p1 ! r) < int r"
    proof (cases "r < ?L")
      case True
      then show ?thesis using hash_okD(3)[OF ok True] by (simp add: rw nth_append)
    next
      case False
      then have "r = ?L" using r rw by simp
      then show ?thesis using hd nx by (simp add: rw)
    qed
  qed
  have len: "length (rows p1) = Suc ?L" by (simp add: rw)
  have hh: "hash p1 ! nat hv = int ?L" using hv by (simp add: hs)
  have newchain: "chain (Suc ?L) (rows p1) (int ?L) = int ?L # chain ?L (rows pool) (hash pool ! nat hv)"
    using chain_append[OF dec hd(2), of ?L "[new]"] nx by (simp add: rw)
  have c4: "\<forall>r < length (rows p1). 0 \<le> row_bucket (coefs (rows p1 ! r)) \<and>
        int r \<in> set (chain (length (rows p1)) (rows p1)
                       (hash p1 ! nat (row_bucket (coefs (rows p1 ! r)))))"
  proof (intro allI impI)
    fix r assume r: "r < length (rows p1)"
    show "0 \<le> row_bucket (coefs (rows p1 ! r)) \<and>
        int r \<in> set (chain (length (rows p1)) (rows p1)
                       (hash p1 ! nat (row_bucket (coefs (rows p1 ! r)))))"
    proof (cases "r < ?L")
      case False
      then have e: "r = ?L" using r rw by simp
      then have n: "rows p1 ! r = new" by (simp add: rw)
      have "int r \<in> set (chain (Suc ?L) (rows p1) (int ?L))" unfolding newchain e by simp
      then show ?thesis unfolding n rb len hh using hv(1) by blast
    next
      case True
      let ?b = "row_bucket (coefs (rows pool ! r))"
      have same: "rows p1 ! r = rows pool ! r" using True by (simp add: rw nth_append)
      have old: "0 \<le> ?b" "int r \<in> set (chain ?L (rows pool) (hash pool ! nat ?b))"
        using hash_okD(4)[OF ok True] by simp_all
      from chain_set[OF old(2)] have inrange: "hash pool ! nat ?b < int ?L \<or> True" by simp
      show ?thesis
      proof (cases "?b = hv")
        case True
        have "int r \<in> set (chain (Suc ?L) (rows p1) (int ?L))"
          using old(2) True unfolding newchain by simp
        then show ?thesis unfolding same True len hh using hv(1) by blast
      next
        case False
        then have ne: "nat ?b \<noteq> nat hv" using old(1) hv(1) by simp
        have nonempty: "chain ?L (rows pool) (hash pool ! nat ?b) \<noteq> []" using old(2) by auto
        have lt: "hash pool ! nat ?b < int ?L"
        proof (rule ccontr)
          assume "\<not> hash pool ! nat ?b < int ?L"
          then have "chain ?L (rows pool) (hash pool ! nat ?b) = []" by (cases ?L) auto
          with nonempty show False by simp
        qed
        have "chain (Suc ?L) (rows p1) (hash pool ! nat ?b) = chain (Suc ?L) (rows pool) (hash pool ! nat ?b)"
          using chain_append[OF dec lt, of "Suc ?L" "[new]"] by (simp only: rw)
        also have "\<dots> = chain ?L (rows pool) (hash pool ! nat ?b)"
          using lt by (intro chain_fuel[OF dec]) auto
        finally have "int r \<in> set (chain (Suc ?L) (rows p1) (hash pool ! nat ?b))" using old(2) by simp
        moreover have "hash p1 ! nat ?b = hash pool ! nat ?b" using ne by (simp add: hs)
        ultimately show ?thesis unfolding same len using old(1) by simp
      qed
    qed
  qed
  show ?thesis unfolding hash_ok_def using c1 c2 c3 c4 by blast
qed

lemma copies_absent: "\<not> holds_row pool nc \<Longrightarrow> copies pool nc = 0"
  by (auto simp: holds_row_def copies_def filter_empty_conv)

text \<open>
  Claim C2 (amended).  In a pool with consistent hash chains and room in its arrays, for every
  pair of calls adding rows that normalise to the same stored form (length and coefficient
  vector, with the operator and right-hand side entry), both calls return, the first one
  "inserted" exactly when the pool does not hold that stored form yet and "duplicate" when it
  does, the second one always "duplicate" without changing the pool.  The number of stored rows
  grows by one only on insertion, the pool then holds exactly one copy, and the pool stays
  consistent for the next call.
\<close>

theorem add_row_dedup:
  assumes ok: "hash_ok pool" and rm: "room_ok pool"
    and s1: "stored_form r1 = Some nc" and s2: "stored_form r2 = Some nc"
  shows "\<exists>b p1. add_constraint_to_pool pool r1 a1 = Some (Inr (b, p1)) \<and>
     (b \<longleftrightarrow> \<not> holds_row pool nc) \<and>
     add_constraint_to_pool p1 r2 a2 = Some (Inr (False, p1)) \<and>
     length (rows p1) = (if b then Suc (length (rows pool)) else length (rows pool)) \<and>
     copies p1 nc = (if b then 1 else copies pool nc) \<and>
     hash_ok p1 \<and> room_ok p1"
proof -
  obtain n c where nc: "nc = (n, c)" by (cases nc)
  from add_constraint_cases[OF ok s1[unfolded nc], of a1] obtain rp reg where
    c: "c = take (nat (n + 1)) rp" and hc: "hash_row 0 0 c = Inr (reg, n)"
    and a: "add_constraint_to_pool pool r1 a1 =
       (if holds_row pool (n, c) then Some (Inr (False, pool))
        else Some (append_row pool rp n (bucket reg) a1))" by blast
  have second: "\<And>p. hash_ok p \<Longrightarrow> holds_row p (n, c) \<Longrightarrow>
      add_constraint_to_pool p r2 a2 = Some (Inr (False, p))"
  proof -
    fix p assume p: "hash_ok p" "holds_row p (n, c)"
    from add_constraint_cases[OF p(1) s2[unfolded nc], of a2] p(2)
    show "add_constraint_to_pool p r2 a2 = Some (Inr (False, p))" by auto
  qed
  show ?thesis
  proof (cases "holds_row pool (n, c)")
    case True
    have "add_constraint_to_pool pool r1 a1 = Some (Inr (False, pool))" using a True by simp
    then show ?thesis using True second[OF ok True] ok rm unfolding nc
      by (intro exI[of _ False] exI[of _ pool]) simp
  next
    case False
    let ?L = "length (rows pool)"
    have br: "0 \<le> bucket reg" "nat (bucket reg) < length (hash pool)"
      using bucket_range[of reg] hash_okD(1)[OF ok] by (auto simp: CPOOL_HASH_SIZE_def)
    from append_row_ok[OF rm br, of rp n a1] obtain p1 where
      ap: "append_row pool rp n (bucket reg) a1 = Inr (True, p1)" and rm1: "room_ok p1" by blast
    from append_row_shape[OF ap] have
      sh: "length (rows p1) = Suc ?L" "take ?L (rows p1) = rows pool"
        "len (rows p1 ! ?L) = n" "coefs (rows p1 ! ?L) = c"
        "next_r (rows p1 ! ?L) = hash pool ! nat (bucket reg)"
        "hash p1 = (hash pool)[nat (bucket reg) := int ?L]"
      using c by simp_all
    have rw: "rows p1 = rows pool @ [rows p1 ! ?L]"
      using sh(1,2) by (metis lessI take_Suc_conv_app_nth take_all order_refl)
    have rb: "row_bucket (coefs (rows p1 ! ?L)) = bucket reg"
      by (simp add: sh(4) row_bucket_def hc)
    have ok1: "hash_ok p1"
      by (rule hash_ok_append[OF ok rw sh(5) sh(6) br rb])
    have m: "len (rows p1 ! ?L) = n \<and> take (nat (n + 1)) (coefs (rows p1 ! ?L)) = c"
      using sh(3,4) take_stored[OF c] by simp
    have "rows p1 ! ?L \<in> set (rows p1)" using sh(1) by simp
    then have hold1: "holds_row p1 (n, c)" unfolding holds_row_def using m by auto
    have "copies p1 (n, c) = copies pool (n, c) + 1"
      unfolding copies_def by (subst rw) (simp add: m)
    then have cp: "copies p1 (n, c) = 1" using copies_absent[OF False] by simp
    have "add_constraint_to_pool pool r1 a1 = Some (Inr (True, p1))" using a False ap by simp
    then show ?thesis using False second[OF ok1 hold1] sh(1) cp ok1 rm1 unfolding nc
      by (intro exI[of _ True] exI[of _ p1]) simp
  qed
qed

lemma add_row_facts:
  "hash_ok pool_empty" "room_ok pool_empty" "hash_ok pool_one_row" "room_ok pool_one_row"
  "stored_form row_6_9_15 = Some (3, row_2_3_5)"
  "stored_form row_2_3_5 = Some (3, row_2_3_5)"
  "add_constraint_to_pool pool_empty row_6_9_15 False = Some (Inr (True, pool_one_row))"
  "add_constraint_to_pool pool_one_row row_6_9_15 False = Some (Inr (False, pool_one_row))"
  "\<not> holds_row pool_empty (3, row_2_3_5)" "holds_row pool_one_row (3, row_2_3_5)"
  by code_simp+

theorem add_row_dedup_witness:
  "hash_ok pool_empty \<and> room_ok pool_empty \<and>
   stored_form row_6_9_15 = Some (3, row_2_3_5) \<and> stored_form row_2_3_5 = Some (3, row_2_3_5) \<and>
   \<not> holds_row pool_empty (3, row_2_3_5) \<and>
   add_constraint_to_pool pool_empty row_6_9_15 False = Some (Inr (True, pool_one_row)) \<and>
   add_constraint_to_pool pool_one_row row_2_3_5 False = Some (Inr (False, pool_one_row)) \<and>
   length (rows pool_one_row) = 1 \<and> copies pool_one_row (3, row_2_3_5) = 1 \<and>
   hash_ok pool_one_row \<and> room_ok pool_one_row"
  using add_row_dedup[OF add_row_facts(1,2,5,6), of False False] add_row_facts
  by (auto simp: pool_empty_def)

theorem add_row_first_call_counterexample:
  "hash_ok pool_one_row \<and> room_ok pool_one_row \<and>
   stored_form row_6_9_15 = stored_form row_2_3_5 \<and>
   add_constraint_to_pool pool_one_row row_6_9_15 False = Some (Inr (False, pool_one_row))"
  by (simp add: add_row_facts)

end
